theory Spec2Isabelle
  imports Complex_Main "HOL-Library.Char_ord" "HOL-Library.List_Lexorder"
begin

section \<open>Strings and regular expressions of the log library\<close>

text \<open>
  The library (\<^verbatim>\<open>lib/logs.ts\<close>, \<^verbatim>\<open>lib/spans.ts\<close>) works on JavaScript strings with
  regular-expression literals. A string is modelled as a \<^typ>\<open>string\<close>, one \<^typ>\<open>char\<close>
  per code unit, so the model covers the strings whose code units are below 256.
  JavaScript numbers are modelled as mathematical integers: every number the modelled
  functions compute is an integer, and the model is exact as long as its magnitude stays
  below \<open>2^53\<close>.

  Every regular expression of the source is a sequence of character classes with a
  greedy repetition count, of word-boundary assertions and of anchors. The matcher
  below is the backtracking matcher of ECMAScript restricted to that shape: an item
  takes as many characters as it can and gives them back one at a time until the rest
  of the pattern matches.
\<close>

datatype cls =
    Digit                 \<comment> \<open>\<^verbatim>\<open>\d\<close>\<close>
  | HexI                  \<comment> \<open>\<^verbatim>\<open>[0-9a-f]\<close> under the \<^verbatim>\<open>i\<close> flag\<close>
  | Word                  \<comment> \<open>\<^verbatim>\<open>\w\<close>\<close>
  | WordDotDash           \<comment> \<open>\<^verbatim>\<open>[\w.-]\<close>\<close>
  | Space                 \<comment> \<open>\<^verbatim>\<open>\s\<close>\<close>
  | NotSpace              \<comment> \<open>\<^verbatim>\<open>[^\s]\<close>\<close>
  | Lit char              \<comment> \<open>a literal character\<close>
  | NotLit char           \<comment> \<open>\<^verbatim>\<open>[^c]\<close>\<close>
  | OneOf string          \<comment> \<open>\<^verbatim>\<open>[abc]\<close>\<close>

definition isDigit :: "char \<Rightarrow> bool" where
  "isDigit c = (c \<in> set ''0123456789'')"

definition isHexI :: "char \<Rightarrow> bool" where
  "isHexI c = (c \<in> set ''0123456789abcdefABCDEF'')"

definition isWord :: "char \<Rightarrow> bool" where
  "isWord c = (c \<in> set ''abcdefghijklmnopqrstuvwxyzABCDEFGHIJKLMNOPQRSTUVWXYZ0123456789_'')"

text \<open>
  White space of \<^verbatim>\<open>\s\<close> and of \<^verbatim>\<open>String.prototype.trim\<close> among the code units below
  256: tab, line feed, vertical tab, form feed, carriage return, space and the
  no-break space.
\<close>

definition isSpace :: "char \<Rightarrow> bool" where
  "isSpace c = (c \<in> set [CHR 0x09, CHR 0x0A, CHR 0x0B, CHR 0x0C, CHR 0x0D, CHR 0x20, CHR 0xA0])"

fun inCls :: "cls \<Rightarrow> char \<Rightarrow> bool" where
  "inCls Digit c = isDigit c"
| "inCls HexI c = isHexI c"
| "inCls Word c = isWord c"
| "inCls WordDotDash c = (isWord c \<or> c = CHR ''.'' \<or> c = CHR ''-'')"
| "inCls Space c = isSpace c"
| "inCls NotSpace c = (\<not> isSpace c)"
| "inCls (Lit d) c = (c = d)"
| "inCls (NotLit d) c = (c \<noteq> d)"
| "inCls (OneOf ds) c = (c \<in> set ds)"

datatype item =
    Rep cls nat "nat option"   \<comment> \<open>class, least and greatest count (\<open>None\<close>: unbounded)\<close>
  | WordB                      \<comment> \<open>\<^verbatim>\<open>\b\<close>\<close>
  | Bol                        \<comment> \<open>\<^verbatim>\<open>^\<close>\<close>
  | Eol                        \<comment> \<open>\<^verbatim>\<open>$\<close>\<close>

type_synonym regex = "item list"

text \<open>
  A position in the subject is the character before it (\<open>None\<close> at the start) and the
  rest of the subject. \<^verbatim>\<open>\b\<close> holds where exactly one side is a word character.
\<close>

definition wordBefore :: "char option \<Rightarrow> bool" where
  "wordBefore prev = (case prev of None \<Rightarrow> False | Some c \<Rightarrow> isWord c)"

definition wordAfter :: "string \<Rightarrow> bool" where
  "wordAfter s = (case s of [] \<Rightarrow> False | c # _ \<Rightarrow> isWord c)"

definition atWordB :: "char option \<Rightarrow> string \<Rightarrow> bool" where
  "atWordB prev s = (wordBefore prev \<noteq> wordAfter s)"

definition prevAfter :: "char option \<Rightarrow> string \<Rightarrow> nat \<Rightarrow> char option" where
  "prevAfter prev s k = (if k = 0 then prev else Some (s ! (k - 1)))"

definition greedyCount :: "cls \<Rightarrow> nat option \<Rightarrow> string \<Rightarrow> nat" where
  "greedyCount c mx s =
     (let n = length (takeWhile (inCls c) s)
      in case mx of None \<Rightarrow> n | Some m \<Rightarrow> min m n)"

text \<open>
  \<open>matchItems re prev s\<close> matches the pattern at one position and lists the number of
  characters each \<open>Rep\<close> item has taken. \<open>tryRep is prev s mn k\<close> lets a repetition
  keep \<open>k\<close> characters and matches the rest \<open>is\<close> of the pattern; when that fails it
  gives one character back, down to \<open>mn\<close>.
\<close>

function matchItems :: "regex \<Rightarrow> char option \<Rightarrow> string \<Rightarrow> nat list option"
  and tryRep :: "regex \<Rightarrow> char option \<Rightarrow> string \<Rightarrow> nat \<Rightarrow> nat \<Rightarrow> nat list option" where
  "matchItems [] prev s = Some []"
| "matchItems (Rep c mn mx # is) prev s = tryRep is prev s mn (greedyCount c mx s)"
| "matchItems (WordB # is) prev s = (if atWordB prev s then matchItems is prev s else None)"
| "matchItems (Bol # is) prev s = (if prev = None then matchItems is prev s else None)"
| "matchItems (Eol # is) prev s = (if s = [] then matchItems is prev s else None)"
| "tryRep is prev s mn k =
     (if k < mn then None
      else case matchItems is (prevAfter prev s k) (drop k s) of
             Some ls \<Rightarrow> Some (k # ls)
           | None \<Rightarrow> if k = 0 then None else tryRep is prev s mn (k - 1))"
  by pat_completeness auto
termination
  by (relation "measures [\<lambda>x. case x of Inl (re, prev, s) \<Rightarrow> 2 * length re
                                     | Inr (is, prev, s, mn, k) \<Rightarrow> 2 * length is + 1,
                          \<lambda>x. case x of Inl _ \<Rightarrow> 0 | Inr (is, prev, s, mn, k) \<Rightarrow> k]")
     auto

declare tryRep.simps [simp del]

text \<open>
  \<^verbatim>\<open>String.prototype.match\<close> with a pattern anchored by \<^verbatim>\<open>^\<close>: the only start
  position that can match is the start of the subject. The result lists the
  substrings taken by the \<open>Rep\<close> items (the capture groups are among them).
\<close>

fun splitBy :: "nat list \<Rightarrow> string \<Rightarrow> string list" where
  "splitBy [] s = []"
| "splitBy (l # ls) s = take l s # splitBy ls (drop l s)"

definition matchAnchored :: "regex \<Rightarrow> string \<Rightarrow> string list option" where
  "matchAnchored re s =
     (case matchItems re None s of None \<Rightarrow> None | Some ls \<Rightarrow> Some (splitBy ls s))"

text \<open>
  \<^verbatim>\<open>String.prototype.replace\<close> with a global pattern and a replacement string without
  \<^verbatim>\<open>$\<close> patterns: the subject is scanned from the left; at each position the pattern
  is tried; a match is replaced and the scan resumes after it (one character further
  when the match is empty); a character where no match starts is copied.
\<close>

function replaceAll :: "regex \<Rightarrow> string \<Rightarrow> char option \<Rightarrow> string \<Rightarrow> string" where
  "replaceAll re rep prev [] =
     (case matchItems re prev [] of None \<Rightarrow> [] | Some ls \<Rightarrow> rep)"
| "replaceAll re rep prev (c # cs) =
     (case matchItems re prev (c # cs) of
        None \<Rightarrow> c # replaceAll re rep (Some c) cs
      | Some ls \<Rightarrow>
          (case sum_list ls of
             0 \<Rightarrow> rep @ c # replaceAll re rep (Some c) cs
           | Suc l \<Rightarrow> rep @ replaceAll re rep (Some ((c # cs) ! l)) (drop l cs)))"
  by pat_completeness auto
termination
  by (relation "measure (\<lambda>(re, rep, prev, s). length s)") auto

definition replace :: "regex \<Rightarrow> string \<Rightarrow> string \<Rightarrow> string" where
  "replace re rep s = replaceAll re rep None s"

definition trim :: "string \<Rightarrow> string" where
  "trim s = rev (dropWhile isSpace (rev (dropWhile isSpace s)))"

subsection \<open>The patterns of \<^verbatim>\<open>extractPattern\<close>\<close>

abbreviation one :: "char \<Rightarrow> item" where
  "one c \<equiv> Rep (Lit c) 1 (Some 1)"

definition hexN :: "nat \<Rightarrow> item" where
  "hexN n = Rep HexI n (Some n)"

definition uuidRe :: regex where
  "uuidRe = [hexN 8, one CHR ''-'', hexN 4, one CHR ''-'', hexN 4, one CHR ''-'', hexN 4,
             one CHR ''-'', hexN 12]"

definition hexRe :: regex where
  "hexRe = [WordB, Rep HexI 32 None, WordB]"

definition numRe :: regex where
  "numRe = [WordB, Rep Digit 1 None, WordB]"

definition ipRe :: regex where
  "ipRe = [WordB, Rep Digit 1 (Some 3), one CHR ''.'', Rep Digit 1 (Some 3), one CHR ''.'',
           Rep Digit 1 (Some 3), one CHR ''.'', Rep Digit 1 (Some 3), WordB]"

definition emailRe :: regex where
  "emailRe = [WordB, Rep WordDotDash 1 None, one CHR ''@'', Rep WordDotDash 1 None,
              one CHR ''.'', Rep Word 1 None, WordB]"

definition urlRe :: regex where
  "urlRe = [one CHR ''h'', one CHR ''t'', one CHR ''t'', one CHR ''p'',
            Rep (Lit CHR ''s'') 0 (Some 1), one CHR '':'', one CHR ''/'', one CHR ''/'',
            Rep NotSpace 1 None]"

definition dquoteRe :: regex where
  "dquoteRe = [one CHR 0x22, Rep (NotLit CHR 0x22) 0 None, one CHR 0x22]"

definition squoteRe :: regex where
  "squoteRe = [one CHR 0x27, Rep (NotLit CHR 0x27) 0 None, one CHR 0x27]"

definition spacesRe :: regex where
  "spacesRe = [Rep Space 1 None]"

definition extractPattern :: "string \<Rightarrow> string" where
  "extractPattern message =
     trim (replace spacesRe '' ''
       (replace squoteRe (CHR 0x27 # ''<STR>'' @ [CHR 0x27])
         (replace dquoteRe (CHR 0x22 # ''<STR>'' @ [CHR 0x22])
           (replace urlRe ''<URL>''
             (replace emailRe ''<EMAIL>''
               (replace ipRe ''<IP>''
                 (replace numRe ''<N>''
                   (replace hexRe ''<HEX>''
                     (replace uuidRe ''<UUID>'' message)))))))))"

subsection \<open>Messages with nothing to mask\<close>

text \<open>
  A pattern can match in a message only if, for each of its items that must take at
  least one character, the message has a run of that many characters of the item's
  class. \<open>nothingToMask m\<close>: for each of the eight masking patterns the message \<open>m\<close>
  lacks such a run. A message without digits, quotes, \<^verbatim>\<open>@\<close> and \<^verbatim>\<open>:\<close> and without eight
  hexadecimal characters in a row is of that kind.
\<close>

fun hasRun :: "(char \<Rightarrow> bool) \<Rightarrow> nat \<Rightarrow> string \<Rightarrow> bool" where
  "hasRun P n [] = (n = 0)"
| "hasRun P n (c # cs) = (n \<le> length (takeWhile P (c # cs)) \<or> hasRun P n cs)"

fun mayMatchItem :: "item \<Rightarrow> string \<Rightarrow> bool" where
  "mayMatchItem (Rep cl mn mx) s = hasRun (inCls cl) mn s"
| "mayMatchItem WordB s = True"
| "mayMatchItem Bol s = True"
| "mayMatchItem Eol s = True"

definition mayMatch :: "regex \<Rightarrow> string \<Rightarrow> bool" where
  "mayMatch re s = list_all (\<lambda>i. mayMatchItem i s) re"

definition nothingToMask :: "string \<Rightarrow> bool" where
  "nothingToMask m =
     (\<not> mayMatch uuidRe m \<and> \<not> mayMatch hexRe m \<and> \<not> mayMatch numRe m \<and> \<not> mayMatch ipRe m
      \<and> \<not> mayMatch emailRe m \<and> \<not> mayMatch urlRe m \<and> \<not> mayMatch dquoteRe m
      \<and> \<not> mayMatch squoteRe m)"


fun collapsed :: "string \<Rightarrow> bool" where
  "collapsed [] = True"
| "collapsed (c # cs) =
     ((isSpace c \<longrightarrow> c = CHR '' '' \<and> (case cs of [] \<Rightarrow> True | d # ds \<Rightarrow> \<not> isSpace d))
      \<and> collapsed cs)"


text \<open>
  A subject in which a pattern matches at no position, the character before it being
  \<open>prev\<close>; \<^verbatim>\<open>replace\<close> with that pattern leaves such a subject as it is.
\<close>

fun noMatchAt :: "regex \<Rightarrow> char option \<Rightarrow> string \<Rightarrow> bool" where
  "noMatchAt re prev [] = (matchItems re prev [] = None)"
| "noMatchAt re prev (c # cs) = (matchItems re prev (c # cs) = None \<and> noMatchAt re (Some c) cs)"

section \<open>Time ranges and durations (\<^verbatim>\<open>parseTimeRange\<close>, \<^verbatim>\<open>parseRelativeTime\<close>,
  \<^verbatim>\<open>parseDurationToMs\<close>)\<close>

text \<open>
  A \<^verbatim>\<open>Date\<close> is its time value in milliseconds, \<open>None\<close> for the invalid date.
  \<^verbatim>\<open>new Date(t)\<close> clips: a time value beyond 8.64e15 ms gives the invalid date, on
  which \<^verbatim>\<open>toISOString\<close> throws a \<^verbatim>\<open>RangeError\<close>. An ISO string is modelled by the
  instant it denotes. \<^verbatim>\<open>new Date(string)\<close> is the host's date parser, a parameter
  \<open>dateOf\<close> of the functions that call it.
\<close>

type_synonym date = "int option"

datatype error = RangeError | BackendError | CallbackError

definition maxTime :: int where
  "maxTime = 8640000000000000"

definition newDate :: "int \<Rightarrow> date" where
  "newDate t = (if \<bar>t\<bar> \<le> maxTime then Some t else None)"

definition toISOString :: "date \<Rightarrow> error + int" where
  "toISOString d = (case d of None \<Rightarrow> Inl RangeError | Some t \<Rightarrow> Inr t)"

definition digitVal :: "char \<Rightarrow> int" where
  "digitVal c = int (of_char c) - 48"

definition parseInt10 :: "string \<Rightarrow> int" where
  "parseInt10 ds = foldl (\<lambda>n c. 10 * n + digitVal c) 0 ds"

definition relTimeRe :: regex where
  "relTimeRe = [Bol, Rep Digit 1 None, Rep (OneOf ''mhd'') 1 (Some 1), Eol]"

definition durationRe :: regex where
  "durationRe = [Bol, Rep Digit 1 None, Rep (OneOf ''smhd'') 1 (Some 1), Eol]"

definition parseRelativeTime :: "(string \<Rightarrow> date) \<Rightarrow> string \<Rightarrow> int \<Rightarrow> date" where
  "parseRelativeTime dateOf timeStr now =
     (case matchAnchored relTimeRe timeStr of
        None \<Rightarrow> (case dateOf timeStr of Some t \<Rightarrow> Some t | None \<Rightarrow> Some now)
      | Some [value, unit] \<Rightarrow>
          (let num = parseInt10 value; ms = now in
           if unit = ''m'' then newDate (ms - num * 60 * 1000)
           else if unit = ''h'' then newDate (ms - num * 60 * 60 * 1000)
           else if unit = ''d'' then newDate (ms - num * 24 * 60 * 60 * 1000)
           else Some now)
      | Some _ \<Rightarrow> Some now)"

record timeRange =
  tr_from :: int
  tr_to :: int

text \<open>An absent argument and the empty string are both falsy.\<close>

definition truthy :: "string option \<Rightarrow> bool" where
  "truthy x = (case x of None \<Rightarrow> False | Some s \<Rightarrow> s \<noteq> [])"

definition parseTimeRange ::
    "(string \<Rightarrow> date) \<Rightarrow> int \<Rightarrow> string option \<Rightarrow> string option \<Rightarrow> error + timeRange" where
  "parseTimeRange dateOf now from_arg to_arg =
     (let toDate = (if truthy to_arg then parseRelativeTime dateOf (the to_arg) now else Some now);
          fromDate = (if truthy from_arg then parseRelativeTime dateOf (the from_arg) now
                      else newDate (now - 15 * 60 * 1000))
      in case toISOString fromDate of
           Inl e \<Rightarrow> Inl e
         | Inr f \<Rightarrow> (case toISOString toDate of
                       Inl e \<Rightarrow> Inl e
                     | Inr t \<Rightarrow> Inr \<lparr>tr_from = f, tr_to = t\<rparr>))"

definition parseDurationToMs :: "string \<Rightarrow> int" where
  "parseDurationToMs duration =
     (case matchAnchored durationRe duration of
        None \<Rightarrow> 5 * 60 * 1000
      | Some [value, unit] \<Rightarrow>
          (let num = parseInt10 value in
           if unit = ''s'' then num * 1000
           else if unit = ''m'' then num * 60 * 1000
           else if unit = ''h'' then num * 60 * 60 * 1000
           else if unit = ''d'' then num * 24 * 60 * 60 * 1000
           else 5 * 60 * 1000)
      | Some _ \<Rightarrow> 5 * 60 * 1000)"

text \<open>
  The shape \<^verbatim>\<open><N><unit>\<close> of the specification: one or more decimal digits followed
  by one unit letter.
\<close>

definition relativeShape :: "string \<Rightarrow> string \<Rightarrow> bool" where
  "relativeShape units s =
     (s \<noteq> [] \<and> butlast s \<noteq> [] \<and> list_all isDigit (butlast s) \<and> last s \<in> set units)"

definition unitMs :: "char \<Rightarrow> int" where
  "unitMs u = (if u = CHR ''s'' then 1000 else if u = CHR ''m'' then 60000
               else if u = CHR ''h'' then 3600000 else if u = CHR ''d'' then 86400000 else 0)"

subsection \<open>\<^verbatim>\<open>comparePeriods\<close> and \<^verbatim>\<open>getLogContext\<close>\<close>

text \<open>
  \<^verbatim>\<open>comparePeriods\<close> takes the clock reading \<open>now\<close> and the two counts read from the
  backend's answers (\<open>None\<close> where the answer has no \<^verbatim>\<open>c0\<close> value). The percentage is
  computed in exact rational arithmetic; \<^verbatim>\<open>Math.round x\<close> is \<open>\<lfloor>x + 1/2\<rfloor>\<close>.
\<close>

record periodCount =
  pc_count :: int
  pc_timeRange :: timeRange

record change =
  absolute :: int
  percentage :: rat

record compareResult =
  current :: periodCount
  previous :: periodCount
  change :: change

definition mathRound :: "rat \<Rightarrow> int" where
  "mathRound x = \<lfloor>x + 1 / 2\<rfloor>"

definition rawPercentage :: "int \<Rightarrow> int \<Rightarrow> rat" where
  "rawPercentage currentCount previousCount =
     (let absolute = currentCount - previousCount in
      if previousCount > 0 then (of_int absolute / of_int previousCount) * 100
      else if currentCount > 0 then 100 else 0)"

definition comparePeriods :: "string \<Rightarrow> int \<Rightarrow> int option \<Rightarrow> int option \<Rightarrow> error + compareResult" where
  "comparePeriods period now currentRes previousRes =
     (let periodMs = parseDurationToMs period in
      case toISOString (Some now) of
        Inl e \<Rightarrow> Inl e
      | Inr currentTo \<Rightarrow>
         (case toISOString (newDate (now - periodMs)) of
            Inl e \<Rightarrow> Inl e
          | Inr currentFrom \<Rightarrow>
             (let previousTo = currentFrom in
              case toISOString (newDate (now - periodMs * 2)) of
                Inl e \<Rightarrow> Inl e
              | Inr previousFrom \<Rightarrow>
                 (let currentCount = (case currentRes of None \<Rightarrow> 0 | Some c \<Rightarrow> c);
                      previousCount = (case previousRes of None \<Rightarrow> 0 | Some c \<Rightarrow> c);
                      absolute = currentCount - previousCount;
                      percentage = rawPercentage currentCount previousCount
                  in Inr \<lparr>current = \<lparr>pc_count = currentCount,
                              pc_timeRange = \<lparr>tr_from = currentFrom, tr_to = currentTo\<rparr>\<rparr>,
                           previous = \<lparr>pc_count = previousCount,
                              pc_timeRange = \<lparr>tr_from = previousFrom, tr_to = previousTo\<rparr>\<rparr>,
                           change = \<lparr>absolute = absolute,
                              percentage = of_int (mathRound (percentage * 10)) / 10\<rparr>\<rparr>))))"

text \<open>
  \<^verbatim>\<open>getLogContext\<close>: the two windows it queries, before and after the target
  timestamp. \<open>None\<close> for \<open>before\<close> or \<open>after\<close> is the absent option, replaced by
  \<^verbatim>\<open>"5m"\<close>.
\<close>

definition getLogContextWindows ::
    "(string \<Rightarrow> date) \<Rightarrow> string \<Rightarrow> string option \<Rightarrow> string option
      \<Rightarrow> error + (timeRange \<times> timeRange)" where
  "getLogContextWindows dateOf timestamp before after =
     (let targetTimestamp = dateOf timestamp;
          beforeMs = parseDurationToMs (case before of None \<Rightarrow> ''5m'' | Some b \<Rightarrow> b);
          afterMs = parseDurationToMs (case after of None \<Rightarrow> ''5m'' | Some a \<Rightarrow> a)
      in case targetTimestamp of
           None \<Rightarrow> Inl RangeError
         | Some t \<Rightarrow>
            (case toISOString (newDate (t - beforeMs)) of
               Inl e \<Rightarrow> Inl e
             | Inr beforeFrom \<Rightarrow>
                (case toISOString (newDate (t + afterMs)) of
                   Inl e \<Rightarrow> Inl e
                 | Inr afterTo \<Rightarrow>
                     Inr (\<lparr>tr_from = beforeFrom, tr_to = t\<rparr>, \<lparr>tr_from = t, tr_to = afterTo\<rparr>))))"

section \<open>Log patterns (\<^verbatim>\<open>getLogPatterns\<close>)\<close>

text \<open>
  \<^verbatim>\<open>Array.prototype.sort\<close> with a comparator is a stable sort: an element moves behind
  another one only where the comparator is positive. It is modelled by insertion from
  the right, which is that sort for every consistent comparator.
\<close>

fun insertBy :: "('a \<Rightarrow> 'a \<Rightarrow> int) \<Rightarrow> 'a \<Rightarrow> 'a list \<Rightarrow> 'a list" where
  "insertBy cmp x [] = [x]"
| "insertBy cmp x (y # ys) = (if cmp x y \<le> 0 then x # y # ys else y # insertBy cmp x ys)"

definition sortBy :: "('a \<Rightarrow> 'a \<Rightarrow> int) \<Rightarrow> 'a list \<Rightarrow> 'a list" where
  "sortBy cmp xs = foldr (insertBy cmp) xs []"

record patternData =
  pd_count :: int
  pd_sample :: string

record patternEntry =
  pattern :: string
  count :: int
  sample :: string

record patternResult =
  patterns :: "patternEntry list"
  totalLogs :: nat

text \<open>
  The \<^verbatim>\<open>Map\<close> from pattern to count and sample keeps its keys in insertion order: it
  is an association list with distinct keys, a new key appended at the end.
\<close>

type_synonym patternMap = "(string \<times> patternData) list"

definition addMessage :: "patternMap \<Rightarrow> string \<Rightarrow> patternMap" where
  "addMessage patternMap message =
     (let pat = extractPattern message in
      case map_of patternMap pat of
        Some existing \<Rightarrow>
          map (\<lambda>(k, v). if k = pat then (k, v\<lparr>pd_count := pd_count v + 1\<rparr>) else (k, v)) patternMap
      | None \<Rightarrow> patternMap @ [(pat, \<lparr>pd_count = 1, pd_sample = message\<rparr>)])"

definition logMessage :: "string option \<Rightarrow> string" where
  "logMessage m = (case m of None \<Rightarrow> [] | Some s \<Rightarrow> s)"

definition buildPatternMap :: "string option list \<Rightarrow> patternMap" where
  "buildPatternMap logs = foldl (\<lambda>m log. addMessage m (logMessage log)) [] logs"

definition byCountDesc :: "string \<times> patternData \<Rightarrow> string \<times> patternData \<Rightarrow> int" where
  "byCountDesc a b = pd_count (snd b) - pd_count (snd a)"

text \<open>
  \<open>backend\<close> is the log search of the backend as a function of the page limit sent to
  it; its answer is the list of the messages of the logs (\<open>None\<close>: a log without a
  message), or \<open>None\<close> when the answer has no data.
\<close>

definition getLogPatterns :: "(nat \<Rightarrow> string option list option) \<Rightarrow> nat option \<Rightarrow> patternResult" where
  "getLogPatterns backend limit_opt =
     (let limit = (case limit_opt of None \<Rightarrow> 500 | Some l \<Rightarrow> l);
          data = backend limit;
          patternMap = (case data of None \<Rightarrow> [] | Some logs \<Rightarrow> buildPatternMap logs)
      in \<lparr>patterns = map (\<lambda>(p, d). \<lparr>pattern = p, count = pd_count d, sample = pd_sample d\<rparr>)
                          (take 50 (sortBy byCountDesc patternMap)),
           totalLogs = (case data of None \<Rightarrow> 0 | Some logs \<Rightarrow> length logs)\<rparr>)"

text \<open>
  The clusters as the specification words them: the distinct keys in the order in
  which they are first seen, each with the number of messages that have the key and
  the first message that has it, sorted by descending count by a stable sort.
\<close>

definition firstSeen :: "'a list \<Rightarrow> 'a list" where
  "firstSeen xs = rev (remdups (rev xs))"

definition clusterOf :: "string list \<Rightarrow> string \<Rightarrow> patternEntry" where
  "clusterOf messages p =
     \<lparr>pattern = p,
      count = int (count_list (map extractPattern messages) p),
      sample = (case find (\<lambda>m. extractPattern m = p) messages of None \<Rightarrow> [] | Some m \<Rightarrow> m)\<rparr>"

definition clustersSpec :: "string list \<Rightarrow> patternEntry list" where
  "clustersSpec messages =
     sort_key (\<lambda>e. - count e) (map (clusterOf messages) (firstSeen (map extractPattern messages)))"

text \<open>
  The value the \<^verbatim>\<open>Map\<close> holds after a list of messages, stated directly: used to
  relate the loop of \<^verbatim>\<open>getLogPatterns\<close> to \<open>clustersSpec\<close>.
\<close>

definition dataOf :: "string list \<Rightarrow> string \<Rightarrow> patternData" where
  "dataOf messages p =
     \<lparr>pd_count = int (count_list (map extractPattern messages) p),
      pd_sample = (case find (\<lambda>m. extractPattern m = p) messages of None \<Rightarrow> [] | Some m \<Rightarrow> m)\<rparr>"

definition mapOf :: "string list \<Rightarrow> patternMap" where
  "mapOf messages = map (\<lambda>p. (p, dataOf messages p)) (firstSeen (map extractPattern messages))"

text \<open>The messages of the logs the backend answers to the request of \<^verbatim>\<open>getLogPatterns\<close>.\<close>

definition answered :: "(nat \<Rightarrow> string option list option) \<Rightarrow> nat option \<Rightarrow> string list" where
  "answered backend limit_opt =
     map logMessage (case backend (case limit_opt of None \<Rightarrow> 500 | Some l \<Rightarrow> l) of
                       None \<Rightarrow> [] | Some logs \<Rightarrow> logs)"

text \<open>The 51 one-letter messages \<^verbatim>\<open>"a"\<close> to \<^verbatim>\<open>"y"\<close> and \<^verbatim>\<open>"A"\<close> to \<^verbatim>\<open>"Z"\<close>.\<close>

definition letterLogs :: "string option list" where
  "letterLogs = map (\<lambda>c. Some [c]) ''abcdefghijklmnopqrstuvwxyABCDEFGHIJKLMNOPQRSTUVWXYZ''"

section \<open>Error summaries (\<^verbatim>\<open>getSpanErrors\<close>, \<^verbatim>\<open>getErrorSummary\<close>)\<close>

text \<open>
  A bucket of an aggregation answer: the value of the group-by facet (\<open>None\<close> when the
  bucket has none) and the computed count \<^verbatim>\<open>c0\<close> (\<open>None\<close> when absent). The requests
  a summary sends are data: an aggregation with or without a group-by (facet and
  bucket limit), or a search with its sort order and page limit.
\<close>

record bucket =
  bucket_by :: "string option"
  bucket_c0 :: "int option"

datatype request =
    AggregateRequest string "(string \<times> nat) option"
  | ListRequest string string nat

definition bucketCounts :: "bucket list option \<Rightarrow> (string \<times> int) list" where
  "bucketCounts res =
     (case res of
        None \<Rightarrow> []
      | Some buckets \<Rightarrow>
          concat (map (\<lambda>b. case bucket_by b of
                              None \<Rightarrow> []
                            | Some key \<Rightarrow> [(key, case bucket_c0 b of None \<Rightarrow> 0 | Some c \<Rightarrow> c)])
                      buckets))"

definition baseQuery :: "string option \<Rightarrow> string" where
  "baseQuery service =
     (if truthy service then ''status:error service:'' @ the service else ''status:error'')"

record 'a spanErrorSummary =
  se_total :: int
  se_byService :: "(string \<times> int) list"
  se_byResource :: "(string \<times> int) list"
  se_recentErrors :: "'a list"

definition getSpanErrorsRequests :: "string option \<Rightarrow> request list" where
  "getSpanErrorsRequests service =
     [AggregateRequest (baseQuery service) (Some (''service'', 20)),
      AggregateRequest (baseQuery service) (Some (''resource_name'', 20)),
      ListRequest (baseQuery service) ''-timestamp'' 20]"

definition getSpanErrors ::
    "bucket list option \<Rightarrow> bucket list option \<Rightarrow> 'a list option \<Rightarrow> 'a spanErrorSummary" where
  "getSpanErrors byServiceRes byResourceRes recentRes =
     (let byService = bucketCounts byServiceRes;
          byResource = bucketCounts byResourceRes;
          recentErrors = (case recentRes of None \<Rightarrow> [] | Some spans \<Rightarrow> spans);
          total = foldl (\<lambda>sum s. sum + snd s) 0 byService
      in \<lparr>se_total = total, se_byService = byService, se_byResource = byResource,
           se_recentErrors = recentErrors\<rparr>)"

record logErrorSummary =
  le_total :: int
  le_byService :: "(string \<times> int) list"
  le_byStatus :: "(string \<times> int) list"

definition getErrorSummaryRequests :: "string option \<Rightarrow> request list" where
  "getErrorSummaryRequests service =
     [AggregateRequest (baseQuery service) (Some (''service'', 20)),
      AggregateRequest (baseQuery service) (Some (''@error.kind'', 20)),
      AggregateRequest (baseQuery service) None,
      ListRequest (baseQuery service) ''-timestamp'' 500]"

text \<open>
  The log summary reads its total from the third answer, the aggregation without a
  group-by (\<open>totalRes\<close>: the \<^verbatim>\<open>c0\<close> of its first bucket); the top messages are left out.
\<close>

definition getErrorSummary ::
    "bucket list option \<Rightarrow> bucket list option \<Rightarrow> int option \<Rightarrow> logErrorSummary" where
  "getErrorSummary byServiceRes byStatusRes totalRes =
     (let byService = bucketCounts byServiceRes;
          byStatus = bucketCounts byStatusRes;
          total = (case totalRes of None \<Rightarrow> 0 | Some c \<Rightarrow> if c \<noteq> 0 then c else 0)
      in \<lparr>le_total = total, le_byService = byService, le_byStatus = byStatus\<rparr>)"

section \<open>Live tail (\<^verbatim>\<open>tailLogs\<close>)\<close>

text \<open>
  The state of a tail session: the set \<^verbatim>\<open>seenIds\<close>, whose iteration order is the
  order of insertion, as the list of its elements in that order; the watermark
  \<^verbatim>\<open>lastTimestamp\<close>; the flag \<^verbatim>\<open>running\<close>. The logs handed to \<^verbatim>\<open>onLog\<close> are recorded
  in \<open>delivered\<close>.

  One poll gets the answer of the backend: \<open>Inl e\<close> when the request fails, else the
  list of the logs (\<open>None\<close>: no data), each one given by what \<^verbatim>\<open>normalizeLog\<close> makes of
  it (\<open>Inl e\<close> when it throws). \<open>onLog\<close> tells for a log whether the callback throws.
  An exception leaves the \<^verbatim>\<open>try\<close> block: what was done before it stays done, the rest of
  the block is skipped.
\<close>

record normalizedLog =
  log_id :: string
  log_timestamp :: string

record tailState =
  seenIds :: "string list"
  lastTimestamp :: string
  running :: bool
  delivered :: "normalizedLog list"

fun processLogs :: "(normalizedLog \<Rightarrow> error option) \<Rightarrow> tailState \<Rightarrow> (error + normalizedLog) list
    \<Rightarrow> error option \<times> tailState" where
  "processLogs onLog st [] = (None, st)"
| "processLogs onLog st (Inl e # logs) = (Some e, st)"
| "processLogs onLog st (Inr normalized # logs) =
     (if log_id normalized \<in> set (seenIds st) then processLogs onLog st logs
      else
        let st1 = st\<lparr>seenIds := seenIds st @ [log_id normalized]\<rparr>;
            st2 = st1\<lparr>delivered := delivered st1 @ [normalized]\<rparr>
        in case onLog normalized of
             Some e \<Rightarrow> (Some e, st2)
           | None \<Rightarrow>
               processLogs onLog
                 (if log_timestamp normalized > lastTimestamp st2
                  then st2\<lparr>lastTimestamp := log_timestamp normalized\<rparr> else st2)
                 logs)"

definition boundSeenIds :: "tailState \<Rightarrow> tailState" where
  "boundSeenIds st =
     (if length (seenIds st) > 10000
      then st\<lparr>seenIds := drop (length (seenIds st) - 5000) (seenIds st)\<rparr>
      else st)"

definition poll :: "(normalizedLog \<Rightarrow> error option) \<Rightarrow> tailState
    \<Rightarrow> error + (error + normalizedLog) list option \<Rightarrow> error option \<times> tailState" where
  "poll onLog st response =
     (if \<not> running st then (None, st)
      else case response of
             Inl e \<Rightarrow> (Some e, st)
           | Inr data \<Rightarrow>
               (case processLogs onLog st (case data of None \<Rightarrow> [] | Some logs \<Rightarrow> logs) of
                  (Some e, st') \<Rightarrow> (Some e, st')
                | (None, st') \<Rightarrow> (None, boundSeenIds st')))"

text \<open>\<open>n\<close> distinct ids: \<^verbatim>\<open>x\<close>, \<^verbatim>\<open>xx\<close>, \<^verbatim>\<open>xxx\<close> and so on.\<close>

definition manyIds :: "nat \<Rightarrow> string list" where
  "manyIds n = map (\<lambda>k. replicate (Suc k) CHR ''x'') [0..<n]"

section \<open>Trace trees (\<^verbatim>\<open>buildTraceTree\<close>)\<close>

text \<open>
  A \<^verbatim>\<open>TraceNode\<close> is an object; \<^verbatim>\<open>spanMap\<close> holds one node per span id, and only the
  nodes held by \<^verbatim>\<open>spanMap\<close> are ever linked, so the span id identifies the node: the
  heap is the map from span ids to nodes, and the \<^verbatim>\<open>children\<close> and \<^verbatim>\<open>roots\<close> arrays
  hold span ids. The two recursive walks get fuel: \<open>None\<close> is a recursion that does
  not end (the call stack overflows).
\<close>

record span =
  spanId :: string
  parentId :: "string option"
  timestamp :: string

record traceNode =
  node_span :: span
  children :: "string list"
  depth :: nat

type_synonym spanMap = "string \<Rightarrow> traceNode option"

definition createNodes :: "span list \<Rightarrow> spanMap" where
  "createNodes spans =
     foldl (\<lambda>m s. m(spanId s \<mapsto> \<lparr>node_span = s, children = [], depth = 0\<rparr>)) Map.empty spans"

definition linkSpan :: "spanMap \<times> string list \<Rightarrow> span \<Rightarrow> spanMap \<times> string list" where
  "linkSpan st s =
     (let spanMap = fst st; roots = snd st; node = spanId s in
      if truthy (parentId s) \<and> spanMap (the (parentId s)) \<noteq> None
      then (case spanMap (the (parentId s)) of
              Some parent \<Rightarrow>
                (spanMap(the (parentId s) \<mapsto> parent\<lparr>children := children parent @ [node]\<rparr>), roots)
            | None \<Rightarrow> (spanMap, roots))
      else (spanMap, roots @ [node]))"

definition linkSpans :: "spanMap \<Rightarrow> span list \<Rightarrow> spanMap \<times> string list" where
  "linkSpans spanMap spans = foldl linkSpan (spanMap, []) spans"

function setDepth :: "nat \<Rightarrow> spanMap \<Rightarrow> string \<Rightarrow> nat \<Rightarrow> spanMap option"
  and setDepthEach :: "nat \<Rightarrow> spanMap \<Rightarrow> string list \<Rightarrow> nat \<Rightarrow> spanMap option" where
  "setDepth 0 m node d = None"
| "setDepth (Suc fuel) m node d =
     (case m node of
        None \<Rightarrow> None
      | Some n \<Rightarrow> setDepthEach fuel (m(node \<mapsto> n\<lparr>depth := d\<rparr>)) (children n) (d + 1))"
| "setDepthEach fuel m [] d = Some m"
| "setDepthEach fuel m (child # rest) d =
     (case setDepth fuel m child d of
        None \<Rightarrow> None
      | Some m' \<Rightarrow> setDepthEach fuel m' rest d)"
  by pat_completeness auto
termination
  by (relation "measures [\<lambda>x. case x of Inl (fuel, m, node, d) \<Rightarrow> 2 * fuel
                                     | Inr (fuel, m, cs, d) \<Rightarrow> 2 * fuel + 1,
                          \<lambda>x. case x of Inl _ \<Rightarrow> 0 | Inr (fuel, m, cs, d) \<Rightarrow> length cs]")
     auto

text \<open>
  The comparator of \<^verbatim>\<open>sortChildren\<close> subtracts the time values of the two timestamps;
  with an invalid date the difference is \<^verbatim>\<open>NaN\<close>, which the sort takes as zero.
  Where that makes the comparator inconsistent the host is free in the order it
  produces; the model sorts by insertion there too.
\<close>

definition timeOf :: "(string \<Rightarrow> date) \<Rightarrow> spanMap \<Rightarrow> string \<Rightarrow> date" where
  "timeOf dateOf m node =
     (case m node of None \<Rightarrow> None | Some n \<Rightarrow> dateOf (timestamp (node_span n)))"

definition byTimestamp :: "(string \<Rightarrow> date) \<Rightarrow> spanMap \<Rightarrow> string \<Rightarrow> string \<Rightarrow> int" where
  "byTimestamp dateOf m a b =
     (case (timeOf dateOf m a, timeOf dateOf m b) of
        (Some x, Some y) \<Rightarrow> x - y
      | _ \<Rightarrow> 0)"

function sortChildren :: "(string \<Rightarrow> date) \<Rightarrow> nat \<Rightarrow> spanMap \<Rightarrow> string \<Rightarrow> spanMap option"
  and sortChildrenEach :: "(string \<Rightarrow> date) \<Rightarrow> nat \<Rightarrow> spanMap \<Rightarrow> string list \<Rightarrow> spanMap option" where
  "sortChildren dateOf 0 m node = None"
| "sortChildren dateOf (Suc fuel) m node =
     (case m node of
        None \<Rightarrow> None
      | Some n \<Rightarrow>
          (let sorted = sortBy (byTimestamp dateOf m) (children n)
           in sortChildrenEach dateOf fuel (m(node \<mapsto> n\<lparr>children := sorted\<rparr>)) sorted))"
| "sortChildrenEach dateOf fuel m [] = Some m"
| "sortChildrenEach dateOf fuel m (child # rest) =
     (case sortChildren dateOf fuel m child of
        None \<Rightarrow> None
      | Some m' \<Rightarrow> sortChildrenEach dateOf fuel m' rest)"
  by pat_completeness auto
termination
  by (relation "measures [\<lambda>x. case x of Inl (dateOf, fuel, m, node) \<Rightarrow> 2 * fuel
                                     | Inr (dateOf, fuel, m, cs) \<Rightarrow> 2 * fuel + 1,
                          \<lambda>x. case x of Inl _ \<Rightarrow> 0 | Inr (dateOf, fuel, m, cs) \<Rightarrow> length cs]")
     auto

record traceForest =
  roots :: "string list"
  nodes :: spanMap

definition buildTraceTree :: "(string \<Rightarrow> date) \<Rightarrow> nat \<Rightarrow> span list \<Rightarrow> traceForest option" where
  "buildTraceTree dateOf fuel spans =
     (let linked = linkSpans (createNodes spans) spans;
          spanMap = fst linked; roots = snd linked
      in case setDepthEach fuel spanMap roots 0 of
           None \<Rightarrow> None
         | Some m1 \<Rightarrow>
             (case sortChildrenEach dateOf fuel m1 roots of
                None \<Rightarrow> None
              | Some m2 \<Rightarrow> Some \<lparr>roots = roots, nodes = m2\<rparr>))"

text \<open>The nodes of the forest: what the child links reach from a root.\<close>

inductive inForest :: "traceForest \<Rightarrow> string \<Rightarrow> bool" for f :: traceForest where
  root: "r \<in> set (roots f) \<Longrightarrow> inForest f r"
| child: "inForest f p \<Longrightarrow> nodes f p = Some n \<Longrightarrow> c \<in> set (children n) \<Longrightarrow> inForest f c"

text \<open>
  The parent a span is attached to: its \<^verbatim>\<open>parentId\<close> when that is set and names a
  span of the list. \<open>chainEnds spans x k\<close>: following the parent links from the span
  \<open>x\<close> ends, after \<open>k\<close> steps, at a span that is attached to no parent.
\<close>

definition validParent :: "span list \<Rightarrow> span \<Rightarrow> string option" where
  "validParent spans s =
     (if truthy (parentId s) \<and> the (parentId s) \<in> spanId ` set spans then parentId s else None)"

inductive chainEnds :: "span list \<Rightarrow> string \<Rightarrow> nat \<Rightarrow> bool" for spans :: "span list" where
  root: "s \<in> set spans \<Longrightarrow> validParent spans s = None \<Longrightarrow> chainEnds spans (spanId s) 0"
| child: "s \<in> set spans \<Longrightarrow> validParent spans s = Some p \<Longrightarrow> chainEnds spans p k
          \<Longrightarrow> chainEnds spans (spanId s) (Suc k)"

text \<open>
  Notions of the proofs about \<^verbatim>\<open>buildTraceTree\<close>: the node a span gets, the child
  links as a relation on span ids, the nodes as the linking leaves them (\<open>shape\<close>), what
  the two walks may change (\<open>depthStep\<close>, \<open>sortStep\<close>), and nodes whose depth is the
  length of their chain of parents (\<open>ranked\<close>).
\<close>

definition newNode :: "span \<Rightarrow> traceNode" where
  "newNode s = \<lparr>node_span = s, children = [], depth = 0\<rparr>"

definition addChildren :: "span list \<Rightarrow> span list \<Rightarrow> string \<Rightarrow> traceNode \<Rightarrow> traceNode" where
  "addChildren spans xs n nd =
     nd\<lparr>children := children nd @ map spanId (filter (\<lambda>s. validParent spans s = Some n) xs)\<rparr>"

definition linkedNode :: "span list \<Rightarrow> span \<Rightarrow> traceNode" where
  "linkedNode spans s =
     \<lparr>node_span = s,
      children = map spanId (filter (\<lambda>c. validParent spans c = Some (spanId s)) spans),
      depth = 0\<rparr>"

definition childRel :: "span list \<Rightarrow> (string \<times> string) set" where
  "childRel spans = {(p, c). \<exists>t\<in>set spans. spanId t = c \<and> validParent spans t = Some p}"

definition shape :: "span list \<Rightarrow> spanMap \<Rightarrow> bool" where
  "shape spans m =
     (dom m = spanId ` set spans \<and>
      (\<forall>s\<in>set spans. \<exists>nd. m (spanId s) = Some nd \<and> node_span nd = s
          \<and> set (children nd) = childRel spans `` {spanId s}))"

definition depthStep :: "span list \<Rightarrow> spanMap \<Rightarrow> spanMap \<Rightarrow> bool" where
  "depthStep spans m m' =
     (dom m' = dom m \<and>
      (\<forall>x nd. m x = Some nd \<longrightarrow>
         (\<exists>nd'. m' x = Some nd' \<and> node_span nd' = node_span nd \<and> children nd' = children nd
            \<and> (depth nd' = depth nd \<or> chainEnds spans x (depth nd')))))"

definition ranked :: "span list \<Rightarrow> spanMap \<Rightarrow> string set \<Rightarrow> bool" where
  "ranked spans m X = (\<forall>x\<in>X. \<exists>nd. m x = Some nd \<and> chainEnds spans x (depth nd))"

definition sortStep :: "spanMap \<Rightarrow> spanMap \<Rightarrow> bool" where
  "sortStep m m' =
     (dom m' = dom m \<and>
      (\<forall>x nd. m x = Some nd \<longrightarrow>
         (\<exists>nd'. m' x = Some nd' \<and> node_span nd' = node_span nd \<and> depth nd' = depth nd
            \<and> set (children nd') = set (children nd))))"

section \<open>Properties of the matcher\<close>

lemma inCls_Digit: "inCls Digit = isDigit"
  by (rule ext) simp


lemma tryRep_None:
  "(\<And>j. mn \<le> j \<Longrightarrow> j \<le> k \<Longrightarrow> matchItems is (prevAfter prev s j) (drop j s) = None)
   \<Longrightarrow> tryRep is prev s mn k = None"
proof (induction k)
  case 0
  then show ?case by (simp add: tryRep.simps)
next
  case (Suc k)
  have "tryRep is prev s mn k = None" using Suc by simp
  moreover have "mn \<le> Suc k \<Longrightarrow> matchItems is (prevAfter prev s (Suc k)) (drop (Suc k) s) = None"
    using Suc.prems by simp
  ultimately show ?case by (subst tryRep.simps) simp
qed

lemma tryRep_Some:
  "mn \<le> j \<Longrightarrow> j \<le> k \<Longrightarrow> matchItems is (prevAfter prev s j) (drop j s) = Some ls
   \<Longrightarrow> (\<And>i. j < i \<Longrightarrow> i \<le> k \<Longrightarrow> matchItems is (prevAfter prev s i) (drop i s) = None)
   \<Longrightarrow> tryRep is prev s mn k = Some (j # ls)"
proof (induction k)
  case 0
  then show ?case by (simp add: tryRep.simps)
next
  case (Suc k)
  show ?case
  proof (cases "j = Suc k")
    case True
    then show ?thesis using Suc.prems by (subst tryRep.simps) simp
  next
    case False
    then have jk: "j \<le> k" using Suc.prems by simp
    have ih: "tryRep is prev s mn k = Some (j # ls)"
      using Suc.IH [OF Suc.prems(1) jk Suc.prems(3)] Suc.prems(4) by simp
    have "matchItems is (prevAfter prev s (Suc k)) (drop (Suc k) s) = None"
      using Suc.prems(4) [of "Suc k"] jk by simp
    with ih Suc.prems(1) jk show ?thesis by (subst tryRep.simps) simp
  qed
qed

lemma unit_tail:
  "matchItems [Rep (OneOf us) 1 (Some 1), Eol] prev t =
     (if length t = 1 \<and> hd t \<in> set us then Some [1] else None)"
proof (cases t)
  case Nil
  then show ?thesis by (simp add: greedyCount_def tryRep.simps)
next
  case (Cons c cs)
  then show ?thesis
    by (cases "c \<in> set us"; cases cs) (simp_all add: greedyCount_def tryRep.simps)
qed

lemma unit_match:
  assumes nd0: "\<forall>u\<in>set us. \<not> isDigit u"
  shows "matchItems [Bol, Rep Digit 1 None, Rep (OneOf us) 1 (Some 1), Eol] None s =
           (if relativeShape us s then Some [length s - 1, 1] else None)"
proof -
  have nd: "\<not> isDigit u" if "u \<in> set us" for u using nd0 that by blast
  let ?n = "length (takeWhile isDigit s)"
  let ?tl = "[Rep (OneOf us) 1 (Some 1), Eol]"
  have gc: "greedyCount Digit None s = ?n"
    by (simp add: greedyCount_def inCls_Digit)
  have split: "s = takeWhile isDigit s @ dropWhile isDigit s" by simp
  have early: "matchItems ?tl (prevAfter None s j) (drop j s) = None" if "j < ?n" for j
  proof -
    have "j < length s" using that by (meson length_takeWhile_le less_le_trans)
    moreover have "isDigit (s ! j)" using that by (metis takeWhile_nth nth_mem set_takeWhileD)
    ultimately have "isDigit (hd (drop j s))" by (simp add: hd_drop_conv_nth)
    then show ?thesis using nd by (subst unit_tail) auto
  qed
  have dropn: "drop ?n s = dropWhile isDigit s" by (simp add: dropWhile_eq_drop)
  show ?thesis
  proof (cases "relativeShape us s")
    case True
    then have s: "s = butlast s @ [last s]" and ne: "butlast s \<noteq> []"
      and ds: "\<forall>c\<in>set (butlast s). isDigit c" and u: "last s \<in> set us"
      by (simp_all add: relativeShape_def list_all_iff)
    have tw: "takeWhile isDigit s = butlast s"
      using ds nd [OF u] by (subst s) simp
    then have n: "?n = length s - 1" by simp
    have n1: "1 \<le> ?n" using ne tw by (cases "butlast s") simp_all
    have "drop ?n s = [last s]" using tw s by (metis append_eq_conv_conj length_butlast n)
    then have here: "matchItems ?tl (prevAfter None s ?n) (drop ?n s) = Some [1]"
      using u by (subst unit_tail) simp
    have "tryRep ?tl None s 1 ?n = Some [?n, 1]"
      by (rule tryRep_Some [OF n1 le_refl here]) simp
    then show ?thesis using True gc n by simp
  next
    case False
    have "matchItems ?tl (prevAfter None s j) (drop j s) = None" if "1 \<le> j" "j \<le> ?n" for j
    proof (cases "j < ?n")
      case True
      then show ?thesis by (rule early)
    next
      case False
      then have j: "j = ?n" using that by simp
      show ?thesis
      proof (rule ccontr)
        assume "matchItems ?tl (prevAfter None s j) (drop j s) \<noteq> None"
        then have "length (drop j s) = 1 \<and> hd (drop j s) \<in> set us"
          unfolding unit_tail by (simp split: if_splits)
        then have l: "length (dropWhile isDigit s) = 1" and h: "hd (dropWhile isDigit s) \<in> set us"
          using j dropn by simp_all
        then obtain u where dw: "dropWhile isDigit s = [u]" and u: "u \<in> set us"
          by (cases "dropWhile isDigit s") auto
        have s: "s = takeWhile isDigit s @ [u]" using split dw by metis
        have "takeWhile isDigit s \<noteq> []" using that j by auto
        moreover have "butlast s = takeWhile isDigit s" by (subst s) simp
        moreover have "last s = u" by (subst s) simp
        moreover have "list_all isDigit (takeWhile isDigit s)" by (simp add: list_all_iff) (meson set_takeWhileD)
        ultimately have "relativeShape us s" using u s by (auto simp: relativeShape_def)
        with \<open>\<not> relativeShape us s\<close> show False by simp
      qed
    qed
    then have "tryRep ?tl None s 1 ?n = None" by (rule tryRep_None)
    then show ?thesis using False gc by simp
  qed
qed

section \<open>Relative times and durations\<close>

lemma not_digit_mhd: "\<forall>u\<in>set ''mhd''. \<not> isDigit u"
  by (auto simp: isDigit_def)

lemma not_digit_smhd: "\<forall>u\<in>set ''smhd''. \<not> isDigit u"
  by (auto simp: isDigit_def)

lemma splitBy_two: "s \<noteq> [] \<Longrightarrow> splitBy [length s - 1, 1] s = [butlast s, [last s]]"
proof -
  assume "s \<noteq> []"
  then have s: "s = butlast s @ [last s]" by simp
  have "take (length s - 1) s = butlast s" by (simp add: butlast_conv_take)
  moreover have "drop (length s - 1) s = [last s]"
    by (subst s) (simp del: append_butlast_last_id)
  ultimately show ?thesis by simp
qed

lemma unit_anchored:
  assumes "\<forall>u\<in>set us. \<not> isDigit u"
  shows "matchAnchored [Bol, Rep Digit 1 None, Rep (OneOf us) 1 (Some 1), Eol] s =
           (if relativeShape us s then Some [butlast s, [last s]] else None)"
proof (cases "relativeShape us s")
  case True
  then have "s \<noteq> []" by (simp add: relativeShape_def)
  then have sp: "splitBy [length s - 1, 1] s = [butlast s, [last s]]" by (rule splitBy_two)
  show ?thesis
    unfolding matchAnchored_def unit_match [OF assms] using True
    by (simp only: if_True option.case sp)
next
  case False
  then show ?thesis
    unfolding matchAnchored_def unit_match [OF assms] by (simp only: if_False option.case)
qed

lemma relTime_match:
  "matchAnchored relTimeRe s = (if relativeShape ''mhd'' s then Some [butlast s, [last s]] else None)"
  unfolding relTimeRe_def by (rule unit_anchored [OF not_digit_mhd])

lemma duration_match:
  "matchAnchored durationRe s = (if relativeShape ''smhd'' s then Some [butlast s, [last s]] else None)"
  unfolding durationRe_def by (rule unit_anchored [OF not_digit_smhd])

lemma digitVal_nonneg: "isDigit c \<Longrightarrow> 0 \<le> digitVal c"
  by (auto simp: isDigit_def digitVal_def)

lemma foldl_digits_nonneg:
  "\<forall>c\<in>set ds. isDigit c \<Longrightarrow> 0 \<le> n \<Longrightarrow> 0 \<le> foldl (\<lambda>n c. 10 * n + digitVal c) n ds"
  by (induction ds arbitrary: n) (simp_all add: digitVal_nonneg)

lemma parseInt10_nonneg: "list_all isDigit ds \<Longrightarrow> 0 \<le> parseInt10 ds"
  by (simp add: parseInt10_def foldl_digits_nonneg list_all_iff)

lemma parseRelativeTime_unmatched:
  "\<not> relativeShape ''mhd'' timeStr \<Longrightarrow>
   parseRelativeTime dateOf timeStr now = (case dateOf timeStr of Some t \<Rightarrow> Some t | None \<Rightarrow> Some now)"
  by (simp add: parseRelativeTime_def relTime_match)

lemma seconds_not_mhd: "relativeShape ''s'' timeStr \<Longrightarrow> \<not> relativeShape ''mhd'' timeStr"
  by (auto simp: relativeShape_def)

lemma relTime_value:
  assumes "relativeShape ''mhd'' timeStr"
  shows "parseRelativeTime dateOf timeStr now
           = newDate (now - parseInt10 (butlast timeStr) * unitMs (last timeStr))"
proof -
  have "last timeStr \<in> set ''mhd''" using assms by (simp add: relativeShape_def)
  then consider "last timeStr = CHR ''m''" | "last timeStr = CHR ''h''" | "last timeStr = CHR ''d''"
    by auto
  then show ?thesis
    by cases (simp_all add: parseRelativeTime_def relTime_match assms unitMs_def mult.commute)
qed

text \<open>
  Claim C2, as the code has it. The pattern of \<^verbatim>\<open>parseRelativeTime\<close> is
  \<^verbatim>\<open>^(\d+)([mhd])$\<close>: for a string \<^verbatim>\<open><N><unit>\<close> with unit \<^verbatim>\<open>m\<close>, \<^verbatim>\<open>h\<close> or \<^verbatim>\<open>d\<close> the
  resolver returns the date \<open>now - N * unit\<close> in milliseconds (the invalid date when
  that instant is beyond the range of a \<^verbatim>\<open>Date\<close>), whatever the date parser does.
\<close>

theorem parseRelativeTime_mhd:
  assumes "relativeShape ''mhd'' timeStr"
  shows "parseRelativeTime dateOf timeStr now
           = newDate (now - parseInt10 (butlast timeStr) * unitMs (last timeStr))"
  using assms by (rule relTime_value)

theorem parseRelativeTime_mhd_witness:
  "relativeShape ''mhd'' ''2h'' \<and> parseRelativeTime (\<lambda>s. None) ''2h'' 1705320000000 = Some 1705312800000"
proof -
  have r: "relativeShape ''mhd'' ''2h''" by (simp add: relativeShape_def isDigit_def)
  show ?thesis
    using r parseRelativeTime_mhd [OF r, of "\<lambda>s. None" 1705320000000]
    by (simp add: parseInt10_def digitVal_def unitMs_def newDate_def maxTime_def)
qed

text \<open>
  The unit \<^verbatim>\<open>s\<close> is not in the pattern: \<^verbatim>\<open>"30s"\<close> is handed to the date parser, and
  the result is the parsed date or \<open>now\<close>, never \<open>now - 30000\<close> for every \<open>now\<close>.
\<close>

theorem parseRelativeTime_seconds_counterexample:
  "relativeShape ''smhd'' ''30s'' \<and>
   \<not> (\<exists>dateOf. \<forall>now. parseRelativeTime dateOf ''30s'' now = newDate (now - 30 * unitMs CHR ''s''))"
proof
  show "relativeShape ''smhd'' ''30s''" by (simp add: relativeShape_def isDigit_def)
next
  have n: "\<not> relativeShape ''mhd'' ''30s''" by (simp add: relativeShape_def)
  show "\<not> (\<exists>dateOf. \<forall>now. parseRelativeTime dateOf ''30s'' now = newDate (now - 30 * unitMs CHR ''s''))"
  proof
    assume "\<exists>dateOf. \<forall>now. parseRelativeTime dateOf ''30s'' now = newDate (now - 30 * unitMs CHR ''s'')"
    then obtain dateOf where
      h: "\<And>now. parseRelativeTime dateOf ''30s'' now = newDate (now - 30 * unitMs CHR ''s'')" by blast
    have a: "(case dateOf ''30s'' of Some t \<Rightarrow> Some t | None \<Rightarrow> Some 0) = Some (- 30000)"
      using h [of 0] by (simp add: parseRelativeTime_unmatched [OF n] newDate_def maxTime_def unitMs_def)
    have b: "(case dateOf ''30s'' of Some t \<Rightarrow> Some t | None \<Rightarrow> Some 1) = Some (1 - 30000)"
      using h [of 1] by (simp add: parseRelativeTime_unmatched [OF n] newDate_def maxTime_def unitMs_def)
    from a b show False by (cases "dateOf ''30s''") simp_all
  qed
qed

lemma parseRelativeTime_le_now:
  assumes "relativeShape ''mhd'' timeStr \<or> dateOf timeStr = None"
    and "parseRelativeTime dateOf timeStr now = Some t"
  shows "t \<le> now"
proof (cases "relativeShape ''mhd'' timeStr")
  case True
  then have d: "list_all isDigit (butlast timeStr)" by (simp add: relativeShape_def)
  have u: "0 \<le> unitMs (last timeStr)" by (simp add: unitMs_def)
  have "0 \<le> parseInt10 (butlast timeStr) * unitMs (last timeStr)"
    using parseInt10_nonneg [OF d] u by simp
  moreover have "newDate (now - parseInt10 (butlast timeStr) * unitMs (last timeStr)) = Some t"
    using assms(2) relTime_value [OF True] by simp
  ultimately show ?thesis by (auto simp: newDate_def split: if_splits)
next
  case False
  then have "dateOf timeStr = None" using assms(1) by simp
  then show ?thesis using assms(2) False by (simp add: parseRelativeTime_unmatched)
qed

text \<open>
  Claim C3, as the code has it. \<^verbatim>\<open>parseTimeRange\<close> resolves \<open>from\<close> and \<open>to\<close> one
  by one and never compares them. When \<open>to\<close> is absent (or empty) and \<open>from\<close> is
  absent, a relative time \<^verbatim>\<open><N><m|h|d>\<close> or a string the date parser rejects, the
  range it produces has \<open>from \<le> to\<close>, and \<open>to\<close> is \<open>now\<close>.
\<close>

theorem parseTimeRange_from_le_to:
  assumes "\<not> truthy to_arg"
    and "\<forall>f. from_arg = Some f \<longrightarrow> relativeShape ''mhd'' f \<or> dateOf f = None"
    and "parseTimeRange dateOf now from_arg to_arg = Inr r"
  shows "tr_from r \<le> tr_to r \<and> tr_to r = now"
proof (cases "truthy from_arg")
  case True
  then obtain f where f: "from_arg = Some f" by (cases from_arg) (simp_all add: truthy_def)
  then have h: "relativeShape ''mhd'' f \<or> dateOf f = None" using assms(2) by simp
  show ?thesis
  proof (cases "parseRelativeTime dateOf f now")
    case None
    then show ?thesis using assms(1,3) True f by (simp add: parseTimeRange_def toISOString_def)
  next
    case (Some t)
    then have "t \<le> now" using parseRelativeTime_le_now [of f dateOf now t] h by simp
    then show ?thesis using assms(1,3) True f Some
      by (auto simp: parseTimeRange_def toISOString_def)
  qed
next
  case False
  then show ?thesis using assms(1,3)
    by (auto simp: parseTimeRange_def toISOString_def newDate_def split: if_splits)
qed

theorem parseTimeRange_from_le_to_witness:
  "\<not> truthy None \<and> relativeShape ''mhd'' ''2h''
   \<and> parseTimeRange (\<lambda>s. None) 1705320000000 (Some ''2h'') None
        = Inr \<lparr>tr_from = 1705312800000, tr_to = 1705320000000\<rparr>
   \<and> tr_from \<lparr>tr_from = 1705312800000, tr_to = 1705320000000\<rparr>
        \<le> tr_to \<lparr>tr_from = 1705312800000, tr_to = 1705320000000\<rparr>"
proof -
  have a: "\<not> truthy None" by (simp add: truthy_def)
  have b: "\<forall>f. Some ''2h'' = Some f \<longrightarrow> relativeShape ''mhd'' f \<or> (\<lambda>s. None) f = (None :: date)" by simp
  have r: "relativeShape ''mhd'' ''2h''" by (simp add: relativeShape_def isDigit_def)
  have c: "parseTimeRange (\<lambda>s. None) 1705320000000 (Some ''2h'') None
        = Inr \<lparr>tr_from = 1705312800000, tr_to = 1705320000000\<rparr>"
    by (simp add: parseTimeRange_def truthy_def relTime_value [OF r] parseInt10_def
        digitVal_def unitMs_def newDate_def maxTime_def toISOString_def)
  show ?thesis using a r c parseTimeRange_from_le_to [OF a b c] by simp
qed

text \<open>
  With \<open>from\<close> absent and \<open>to = "1h"\<close> the range starts 15 minutes before \<open>now\<close> and
  ends one hour before \<open>now\<close>: \<open>from\<close> is after \<open>to\<close>.
\<close>

theorem parseTimeRange_counterexample:
  "parseTimeRange (\<lambda>s. None) 1705320000000 None (Some ''1h'')
     = Inr \<lparr>tr_from = 1705319100000, tr_to = 1705316400000\<rparr>
   \<and> \<not> tr_from \<lparr>tr_from = 1705319100000, tr_to = 1705316400000\<rparr>
        \<le> tr_to \<lparr>tr_from = 1705319100000, tr_to = 1705316400000\<rparr>"
proof -
  have r: "relativeShape ''mhd'' ''1h''" by (simp add: relativeShape_def isDigit_def)
  show ?thesis
    by (simp add: parseTimeRange_def truthy_def relTime_value [OF r] parseInt10_def
        digitVal_def unitMs_def newDate_def maxTime_def toISOString_def)
qed

lemma parseDurationToMs_default:
  "\<not> relativeShape ''smhd'' duration \<Longrightarrow> parseDurationToMs duration = 300000"
  by (simp add: parseDurationToMs_def duration_match)

lemma parseDurationToMs_5m: "parseDurationToMs ''5m'' = 300000"
proof -
  have "relativeShape ''smhd'' ''5m''" by (simp add: relativeShape_def isDigit_def)
  then show ?thesis
    by (simp add: parseDurationToMs_def duration_match parseInt10_def digitVal_def)
qed

text \<open>
  Claim C9. A duration that is not one or more digits followed by one of \<^verbatim>\<open>s\<close>,
  \<^verbatim>\<open>m\<close>, \<^verbatim>\<open>h\<close>, \<^verbatim>\<open>d\<close> makes \<^verbatim>\<open>parseDurationToMs\<close> return 300000 ms. With such a
  period \<^verbatim>\<open>comparePeriods\<close> does what it does for \<^verbatim>\<open>"5m"\<close>: no error is raised for
  the period, and the two windows are the five minutes before \<open>now\<close> and the five
  minutes before that. With such \<open>before\<close> and \<open>after\<close>, \<^verbatim>\<open>getLogContext\<close> queries the
  five minutes before and the five minutes after the target.
\<close>

theorem parseDurationToMs_malformed:
  assumes "\<not> relativeShape ''smhd'' duration"
  shows "parseDurationToMs duration = 300000
    \<and> comparePeriods duration now currentRes previousRes
        = comparePeriods ''5m'' now currentRes previousRes
    \<and> (\<bar>now\<bar> + 600000 \<le> maxTime \<longrightarrow>
        (\<exists>r. comparePeriods duration now currentRes previousRes = Inr r
           \<and> pc_timeRange (current r) = \<lparr>tr_from = now - 300000, tr_to = now\<rparr>
           \<and> pc_timeRange (previous r) = \<lparr>tr_from = now - 600000, tr_to = now - 300000\<rparr>))
    \<and> getLogContextWindows dateOf ts (Some duration) (Some duration)
        = getLogContextWindows dateOf ts None None
    \<and> (\<forall>t. dateOf ts = Some t \<and> \<bar>t\<bar> + 300000 \<le> maxTime \<longrightarrow>
         getLogContextWindows dateOf ts (Some duration) (Some duration)
           = Inr (\<lparr>tr_from = t - 300000, tr_to = t\<rparr>, \<lparr>tr_from = t, tr_to = t + 300000\<rparr>))"
proof -
  have d: "parseDurationToMs duration = 300000" using assms by (rule parseDurationToMs_default)
  have c: "comparePeriods duration now currentRes previousRes
        = comparePeriods ''5m'' now currentRes previousRes"
    by (simp add: comparePeriods_def d parseDurationToMs_5m)
  have e: "\<exists>r. comparePeriods duration now currentRes previousRes = Inr r
           \<and> pc_timeRange (current r) = \<lparr>tr_from = now - 300000, tr_to = now\<rparr>
           \<and> pc_timeRange (previous r) = \<lparr>tr_from = now - 600000, tr_to = now - 300000\<rparr>"
    if "\<bar>now\<bar> + 600000 \<le> maxTime"
  proof -
    have "\<bar>now\<bar> \<le> maxTime" "\<bar>now - 300000\<bar> \<le> maxTime" "\<bar>now - 600000\<bar> \<le> maxTime"
      using that by linarith+
    then show ?thesis by (simp add: comparePeriods_def d toISOString_def newDate_def Let_def)
  qed
  have g: "getLogContextWindows dateOf ts (Some duration) (Some duration)
        = getLogContextWindows dateOf ts None None"
    by (simp add: getLogContextWindows_def d parseDurationToMs_5m)
  have h: "getLogContextWindows dateOf ts (Some duration) (Some duration)
           = Inr (\<lparr>tr_from = t - 300000, tr_to = t\<rparr>, \<lparr>tr_from = t, tr_to = t + 300000\<rparr>)"
    if "dateOf ts = Some t" "\<bar>t\<bar> + 300000 \<le> maxTime" for t
  proof -
    have "\<bar>t - 300000\<bar> \<le> maxTime" "\<bar>t + 300000\<bar> \<le> maxTime"
      using that(2) by linarith+
    then show ?thesis using that(1)
      by (simp add: getLogContextWindows_def d toISOString_def newDate_def)
  qed
  show ?thesis using d c e g h by blast
qed

theorem parseDurationToMs_malformed_witness:
  "\<not> relativeShape ''smhd'' ''5 min''
   \<and> parseDurationToMs ''5 min'' = 300000
   \<and> \<not> relativeShape ''smhd'' [] \<and> parseDurationToMs [] = 300000
   \<and> comparePeriods ''5 min'' 1705320000000 (Some 5) None
       = comparePeriods ''5m'' 1705320000000 (Some 5) None
   \<and> (\<exists>r. comparePeriods ''5 min'' 1705320000000 (Some 5) None = Inr r
         \<and> pc_timeRange (current r) = \<lparr>tr_from = 1705319700000, tr_to = 1705320000000\<rparr>
         \<and> pc_timeRange (previous r) = \<lparr>tr_from = 1705319400000, tr_to = 1705319700000\<rparr>)
   \<and> getLogContextWindows (\<lambda>s. Some 1705320000000) ''2024-01-15T12:00:00Z'' (Some ''5 min'') (Some ''5 min'')
       = Inr (\<lparr>tr_from = 1705319700000, tr_to = 1705320000000\<rparr>,
              \<lparr>tr_from = 1705320000000, tr_to = 1705320300000\<rparr>)"
proof -
  have n: "\<not> relativeShape ''smhd'' ''5 min''" by (simp add: relativeShape_def isDigit_def)
  note t = parseDurationToMs_malformed [OF n, of 1705320000000 "Some 5" None
        "\<lambda>s. Some 1705320000000" "''2024-01-15T12:00:00Z''"]
  have a: "parseDurationToMs ''5 min'' = 300000" by (rule t [THEN conjunct1])
  have n0: "\<not> relativeShape ''smhd'' []" by (simp add: relativeShape_def)
  have a0: "parseDurationToMs [] = 300000"
    by (rule parseDurationToMs_malformed [OF n0, THEN conjunct1])
  have b: "comparePeriods ''5 min'' 1705320000000 (Some 5) None
       = comparePeriods ''5m'' 1705320000000 (Some 5) None"
    by (rule t [THEN conjunct2, THEN conjunct1])
  have c: "\<exists>r. comparePeriods ''5 min'' 1705320000000 (Some 5) None = Inr r
         \<and> pc_timeRange (current r) = \<lparr>tr_from = 1705319700000, tr_to = 1705320000000\<rparr>
         \<and> pc_timeRange (previous r) = \<lparr>tr_from = 1705319400000, tr_to = 1705319700000\<rparr>"
    using t [THEN conjunct2, THEN conjunct2, THEN conjunct1] by (simp add: maxTime_def)
  have d: "getLogContextWindows (\<lambda>s. Some 1705320000000) ''2024-01-15T12:00:00Z'' (Some ''5 min'') (Some ''5 min'')
       = Inr (\<lparr>tr_from = 1705319700000, tr_to = 1705320000000\<rparr>,
              \<lparr>tr_from = 1705320000000, tr_to = 1705320300000\<rparr>)"
    using t [THEN conjunct2, THEN conjunct2, THEN conjunct2, THEN conjunct2]
    by (simp add: maxTime_def)
  show ?thesis using n a n0 a0 b c d by (intro conjI)
qed

section \<open>Masking\<close>

text \<open>
  Claim C1: the value of \<^verbatim>\<open>extractPattern\<close> on the example of the specification.
  The integers are masked before the addresses, so each of the four numbers of
  \<^verbatim>\<open>10.0.0.1\<close> becomes \<^verbatim>\<open><N>\<close> and the address pattern finds no digit left: the result
  is not \<^verbatim>\<open>User <UUID> failed at <IP>\<close>.
\<close>

theorem extractPattern_example:
  "extractPattern ''User 123e4567-e89b-12d3-a456-426614174000 failed at 10.0.0.1''
     = ''User <UUID> failed at <N>.<N>.<N>.<N>''"
  by code_simp

section \<open>Period comparison and error summaries\<close>






lemma foldl_sum: "foldl (\<lambda>sum s. sum + snd s) a xs = a + sum_list (map snd xs)"
  by (induction xs arbitrary: a) (simp_all add: ac_simps)

text \<open>
  Claim C10. The total of \<^verbatim>\<open>getSpanErrors\<close> is the sum of the counts of its
  \<open>byService\<close> list, which comes from the group-by on \<^verbatim>\<open>service\<close> limited to 20
  buckets; the span summary sends no aggregation without a group-by, while the log
  summary sends one and reads its total from it.
\<close>

theorem getSpanErrors_total:
  "se_total (getSpanErrors byServiceRes byResourceRes recentRes :: 'a spanErrorSummary)
     = sum_list (map snd (se_byService (getSpanErrors byServiceRes byResourceRes recentRes :: 'a spanErrorSummary)))
   \<and> se_byService (getSpanErrors byServiceRes byResourceRes recentRes :: 'a spanErrorSummary) = bucketCounts byServiceRes
   \<and> getSpanErrorsRequests service
       = [AggregateRequest (baseQuery service) (Some (''service'', 20)),
          AggregateRequest (baseQuery service) (Some (''resource_name'', 20)),
          ListRequest (baseQuery service) ''-timestamp'' 20]
   \<and> AggregateRequest (baseQuery service) None \<notin> set (getSpanErrorsRequests service)
   \<and> AggregateRequest (baseQuery service) None \<in> set (getErrorSummaryRequests service)
   \<and> le_total (getErrorSummary logsByServiceRes byStatusRes totalRes)
       = (case totalRes of None \<Rightarrow> 0 | Some c \<Rightarrow> c)"
  by (simp add: getSpanErrors_def foldl_sum getSpanErrorsRequests_def getErrorSummaryRequests_def
      getErrorSummary_def Let_def split: option.split)

section \<open>Log patterns\<close>

lemma insertBy_insort:
  "insertBy byCountDesc x xs = insort_key (\<lambda>e. - pd_count (snd e)) x xs"
  by (induction xs) (simp_all add: byCountDesc_def)

lemma sortBy_sort_key: "sortBy byCountDesc xs = sort_key (\<lambda>e. - pd_count (snd e)) xs"
proof -
  have "insertBy byCountDesc = insort_key (\<lambda>e. - pd_count (snd e))"
    by (intro ext) (rule insertBy_insort)
  then show ?thesis by (simp add: sortBy_def sort_key_def)
qed

lemma map_insort_key: "map g (insort_key (\<lambda>x. f (g x)) x xs) = insort_key f (g x) (map g xs)"
  by (induction xs) simp_all

lemma map_sort_key: "map g (sort_key (\<lambda>x. f (g x)) xs) = sort_key f (map g xs)"
  by (induction xs) (simp_all add: map_insort_key)

lemma firstSeen_snoc:
  "firstSeen (xs @ [x]) = (if x \<in> set xs then firstSeen xs else firstSeen xs @ [x])"
  by (simp add: firstSeen_def)

lemma set_firstSeen [simp]: "set (firstSeen xs) = set xs"
  by (simp add: firstSeen_def)

lemma distinct_firstSeen [simp]: "distinct (firstSeen xs)"
  by (simp add: firstSeen_def)

lemma map_of_mapOf:
  "map_of (mapOf ms) k = (if k \<in> set (map extractPattern ms) then Some (dataOf ms k) else None)"
  unfolding mapOf_def by (simp add: map_of_map_restrict restrict_map_def)

lemma find_append_seen:
  "p \<in> extractPattern ` set ms \<Longrightarrow>
   find (\<lambda>m. extractPattern m = p) (ms @ [m]) = find (\<lambda>m. extractPattern m = p) ms"
  by (induction ms) auto

lemma find_append_new:
  "extractPattern m \<notin> extractPattern ` set ms \<Longrightarrow>
   find (\<lambda>x. extractPattern x = extractPattern m) (ms @ [m]) = Some m"
  by (induction ms) auto

lemma dataOf_snoc_other:
  "p \<in> extractPattern ` set ms \<Longrightarrow> p \<noteq> extractPattern m \<Longrightarrow> dataOf (ms @ [m]) p = dataOf ms p"
  by (simp add: dataOf_def find_append_seen)

lemma dataOf_snoc_same:
  "extractPattern m \<in> extractPattern ` set ms \<Longrightarrow>
   dataOf (ms @ [m]) (extractPattern m)
     = (dataOf ms (extractPattern m))\<lparr>pd_count := pd_count (dataOf ms (extractPattern m)) + 1\<rparr>"
  by (simp add: dataOf_def find_append_seen)

lemma dataOf_snoc_new:
  "extractPattern m \<notin> extractPattern ` set ms \<Longrightarrow>
   dataOf (ms @ [m]) (extractPattern m) = \<lparr>pd_count = 1, pd_sample = m\<rparr>"
  by (simp add: dataOf_def find_append_new count_list_0_iff [THEN iffD2])

lemma dataOf_snoc_old:
  assumes "x \<in> set ms" and "extractPattern m \<notin> extractPattern ` set ms"
  shows "dataOf (ms @ [m]) (extractPattern x) = dataOf ms (extractPattern x)"
proof -
  have "extractPattern x \<in> extractPattern ` set ms" using assms(1) by (rule imageI)
  moreover from this have "extractPattern x \<noteq> extractPattern m" using assms(2) by metis
  ultimately show ?thesis by (rule dataOf_snoc_other)
qed

lemma addMessage_mapOf: "addMessage (mapOf ms) m = mapOf (ms @ [m])"
proof (cases "extractPattern m \<in> extractPattern ` set ms")
  case True
  have "map (\<lambda>(k, v). if k = extractPattern m then (k, v\<lparr>pd_count := pd_count v + 1\<rparr>) else (k, v))
          (mapOf ms) = mapOf (ms @ [m])"
    unfolding mapOf_def using True
    by (auto simp: firstSeen_snoc dataOf_snoc_same dataOf_snoc_other)
  then show ?thesis using True by (simp add: addMessage_def map_of_mapOf)
next
  case False
  have "mapOf ms @ [(extractPattern m, \<lparr>pd_count = 1, pd_sample = m\<rparr>)] = mapOf (ms @ [m])"
    unfolding mapOf_def using False
    by (auto simp: firstSeen_snoc dataOf_snoc_new dataOf_snoc_old)
  then show ?thesis using False by (simp add: addMessage_def map_of_mapOf)
qed

lemma buildPatternMap_mapOf: "buildPatternMap logs = mapOf (map logMessage logs)"
  unfolding buildPatternMap_def
proof (induction logs rule: rev_induct)
  case Nil
  then show ?case by (simp add: mapOf_def firstSeen_def)
next
  case (snoc l logs)
  then show ?case by (simp add: addMessage_mapOf)
qed

lemma entries_clustersSpec:
  "map (\<lambda>(p, d). \<lparr>pattern = p, count = pd_count d, sample = pd_sample d\<rparr>)
     (sortBy byCountDesc (mapOf ms)) = clustersSpec ms"
proof -
  let ?g = "\<lambda>(p, d). \<lparr>pattern = p, count = pd_count d, sample = pd_sample d\<rparr>"
  have k: "(\<lambda>e. - pd_count (snd e)) = (\<lambda>e. - count (?g e))" by (auto simp: fun_eq_iff)
  have "map ?g (mapOf ms) = map (clusterOf ms) (firstSeen (map extractPattern ms))"
    by (simp add: mapOf_def clusterOf_def dataOf_def)
  then show ?thesis
    unfolding sortBy_sort_key clustersSpec_def k map_sort_key [of ?g "\<lambda>e. - count e"] by simp
qed

lemma getLogPatterns_take:
  "patterns (getLogPatterns backend limit_opt) = take 50 (clustersSpec (answered backend limit_opt))"
proof (cases "backend (case limit_opt of None \<Rightarrow> 500 | Some l \<Rightarrow> l)")
  case None
  then show ?thesis
    by (simp add: getLogPatterns_def answered_def clustersSpec_def firstSeen_def sortBy_def)
next
  case (Some logs)
  then show ?thesis
    by (simp add: getLogPatterns_def answered_def buildPatternMap_mapOf take_map
        entries_clustersSpec [symmetric] del: map_map)
qed

lemma clustersSpec_sorted: "sorted_wrt (\<lambda>a b. count a \<ge> count b) (clustersSpec ms)"
proof -
  have "sorted (map (\<lambda>e. - count e) (clustersSpec ms))" by (simp add: clustersSpec_def)
  then show ?thesis by (simp add: sorted_map sorted_wrt_mono_rel [of _ "\<lambda>a b. - count a \<le> - count b"])
qed

lemma clustersSpec_stable:
  "filter (\<lambda>e. count e = c) (clustersSpec ms)
     = filter (\<lambda>e. count e = c) (map (clusterOf ms) (firstSeen (map extractPattern ms)))"
proof -
  have "filter (\<lambda>e. - count e = - c) (clustersSpec ms)
     = filter (\<lambda>e. - count e = - c) (map (clusterOf ms) (firstSeen (map extractPattern ms)))"
    unfolding clustersSpec_def by (rule sort_key_stable)
  then show ?thesis by simp
qed

text \<open>
  Claim C7, as the code has it. \<^verbatim>\<open>getLogPatterns\<close> returns the first 50 of the
  clusters of the answered messages, sorted by descending count by a stable sort, so
  that clusters of equal count stay in first-seen order; the sample of a cluster is the
  first message with its key and its count the number of messages with its key. The
  cap is the constant 50; the caller's \<open>limit\<close> (500 when absent) is the page limit of
  the request and only bounds the number of logs read.
\<close>

theorem getLogPatterns_clusters:
  "patterns (getLogPatterns backend limit_opt) = take 50 (clustersSpec (answered backend limit_opt))
   \<and> length (patterns (getLogPatterns backend limit_opt)) \<le> 50
   \<and> sorted_wrt (\<lambda>a b. count a \<ge> count b) (patterns (getLogPatterns backend limit_opt))
   \<and> filter (\<lambda>e. count e = c) (clustersSpec ms)
       = filter (\<lambda>e. count e = c) (map (clusterOf ms) (firstSeen (map extractPattern ms)))
   \<and> totalLogs (getLogPatterns backend limit_opt) = length (answered backend limit_opt)"
proof -
  have a: "patterns (getLogPatterns backend limit_opt)
             = take 50 (clustersSpec (answered backend limit_opt))"
    by (rule getLogPatterns_take)
  have b: "sorted_wrt (\<lambda>a b. count a \<ge> count b) (patterns (getLogPatterns backend limit_opt))"
    unfolding a by (rule sorted_wrt_take) (rule clustersSpec_sorted)
  have t: "totalLogs (getLogPatterns backend limit_opt) = length (answered backend limit_opt)"
    by (simp add: getLogPatterns_def answered_def split: option.split)
  show ?thesis using a b t clustersSpec_stable by simp
qed

text \<open>
  With \<open>limit = 100\<close> and 51 messages of 51 different keys, 50 clusters come back, not
  51; with no \<open>limit\<close> the request asks for 500 logs.
\<close>

theorem getLogPatterns_cap_counterexample:
  "length (patterns (getLogPatterns (\<lambda>n. Some letterLogs) (Some 100))) = 50
   \<and> length (clustersSpec (map logMessage letterLogs)) = 51
   \<and> totalLogs (getLogPatterns (\<lambda>n. if n = 500 then Some letterLogs else None) None) = 51
   \<and> totalLogs (getLogPatterns (\<lambda>n. if n = 500 then Some letterLogs else None) (Some 50)) = 0"
proof -
  have k: "map extractPattern (map logMessage letterLogs)
             = map (\<lambda>c. [c]) ''abcdefghijklmnopqrstuvwxyABCDEFGHIJKLMNOPQRSTUVWXYZ''"
    by code_simp
  have f: "length (firstSeen (map (\<lambda>c. [c]) ''abcdefghijklmnopqrstuvwxyABCDEFGHIJKLMNOPQRSTUVWXYZ'')) = 51"
    by code_simp
  have c: "length (clustersSpec (map logMessage letterLogs)) = 51"
    unfolding clustersSpec_def k using f by simp
  have a: "length (patterns (getLogPatterns (\<lambda>n. Some letterLogs) (Some 100))) = 50"
    unfolding getLogPatterns_take using c by (simp add: answered_def)
  have t: "totalLogs (getLogPatterns (\<lambda>n. if n = 500 then Some letterLogs else None) None) = 51"
    by (simp add: getLogPatterns_def letterLogs_def)
  have u: "totalLogs (getLogPatterns (\<lambda>n. if n = 500 then Some letterLogs else None) (Some 50)) = 0"
    by (simp add: getLogPatterns_def)
  show ?thesis using a c t u by simp
qed

section \<open>Live tail\<close>



lemma length_manyIds [simp]: "length (manyIds n) = n"
  by (simp add: manyIds_def)

lemma y_not_in_manyIds: "''y'' \<notin> set (manyIds n)"
  by (auto simp: manyIds_def)

text \<open>
  A cycle in which the callback throws at the first log it has not seen: the id of that
  log has been added, the truncation is skipped.
\<close>

lemma poll_callback_throws:
  assumes "running st" and "log_id l \<notin> set (seenIds st)"
  shows "poll (\<lambda>l. Some e) st (Inr (Some (Inr l # logs)))
       = (Some e, st\<lparr>seenIds := seenIds st @ [log_id l], delivered := delivered st @ [l]\<rparr>)"
  using assms by (simp add: poll_def)

text \<open>
  The bound of 10000 does not hold after every poll cycle. With 10000 ids in the set,
  a cycle whose callback throws at a new log ends (the exception is caught and the next
  poll is scheduled) with 10001 ids: the truncation stands in the \<^verbatim>\<open>try\<close> block, behind
  the loop that the exception leaves. Each further cycle of that kind adds an id.
\<close>

theorem poll_exception_counterexample:
  "poll (\<lambda>l. Some CallbackError)
        \<lparr>seenIds = manyIds 10000, lastTimestamp = [], running = True, delivered = []\<rparr>
        (Inr (Some [Inr \<lparr>log_id = ''y'', log_timestamp = []\<rparr>]))
      = (Some CallbackError,
         \<lparr>seenIds = manyIds 10000 @ [''y''], lastTimestamp = [], running = True,
            delivered = [\<lparr>log_id = ''y'', log_timestamp = []\<rparr>]\<rparr>)
   \<and> length (manyIds 10000 @ [''y'']) = 10001
   \<and> \<not> length (manyIds 10000 @ [''y'']) \<le> 10000"
  using y_not_in_manyIds [of 10000] by (simp add: poll_callback_throws)



section \<open>Masking twice\<close>


lemma hasRun_zero [simp]: "hasRun P 0 s"
  by (cases s) simp_all

lemma hasRun_prefix: "n \<le> length (takeWhile P s) \<Longrightarrow> hasRun P n s"
  by (cases s) simp_all

lemma hasRun_Cons: "hasRun P n s \<Longrightarrow> hasRun P n (c # s)"
  by (cases "n = 0") auto





lemma tryRep_SomeD:
  "tryRep is prev s mn k = Some r \<Longrightarrow>
   \<exists>j ls. r = j # ls \<and> mn \<le> j \<and> j \<le> k \<and> matchItems is (prevAfter prev s j) (drop j s) = Some ls"
proof (induction k)
  case 0
  then show ?case by (subst (asm) tryRep.simps) (auto split: if_splits option.splits)
next
  case (Suc k)
  show ?case
  proof (cases "matchItems is (prevAfter prev s (Suc k)) (drop (Suc k) s)")
    case None
    then have "tryRep is prev s mn k = Some r" using Suc.prems
      by (subst (asm) tryRep.simps) (auto split: if_splits)
    then show ?thesis using Suc.IH by (meson le_SucI)
  next
    case (Some ls)
    then show ?thesis using Suc.prems
      by (subst (asm) tryRep.simps) (auto split: if_splits)
  qed
qed
















lemma collapsed_tl: "collapsed (c # cs) \<Longrightarrow> collapsed cs"
  by simp













text \<open>
  A message without digits, quotes, \<^verbatim>\<open>@\<close> and \<^verbatim>\<open>:\<close> and without eight hexadecimal
  characters in a row has nothing to mask.
\<close>

lemma inCls_HexI: "inCls HexI = isHexI"
  by (rule ext) simp

lemma hasRun_one: "hasRun P (Suc 0) s \<Longrightarrow> \<exists>c\<in>set s. P c"
proof (induction s)
  case Nil
  then show ?case by simp
next
  case (Cons c cs)
  then show ?case by (cases "P c") auto
qed

lemma hasRun_less: "hasRun P n s \<Longrightarrow> k \<le> n \<Longrightarrow> hasRun P k s"
proof (induction s)
  case Nil
  then show ?case by simp
next
  case (Cons c cs)
  from Cons.prems(1) consider "n \<le> length (takeWhile P (c # cs))" | "hasRun P n cs" by auto
  then show ?case
  proof cases
    case 1
    then have "k \<le> length (takeWhile P (c # cs))" using Cons.prems(2) by linarith
    then show ?thesis by (rule hasRun_prefix)
  next
    case 2
    then show ?thesis using Cons by (simp add: hasRun_Cons del: hasRun.simps(2))
  qed
qed

lemma plain_nothingToMask:
  assumes d: "\<forall>c\<in>set m. \<not> isDigit c"
    and q: "CHR 0x22 \<notin> set m" "CHR 0x27 \<notin> set m" "CHR ''@'' \<notin> set m" "CHR '':'' \<notin> set m"
    and h: "\<not> hasRun isHexI 8 m"
  shows "nothingToMask m"
proof -
  have h32: "\<not> hasRun isHexI 32 m" using h hasRun_less [of isHexI 32 m 8] by auto
  have dg: "\<not> hasRun isDigit (Suc 0) m" using d hasRun_one [of isDigit m] by blast
  have lit: "\<not> hasRun (inCls (Lit x)) (Suc 0) m" if "x \<notin> set m" for x
    using that hasRun_one [of "inCls (Lit x)" m] by auto
  show ?thesis
    unfolding nothingToMask_def mayMatch_def uuidRe_def hexRe_def numRe_def ipRe_def emailRe_def
      urlRe_def dquoteRe_def squoteRe_def hexN_def
    using h h32 dg lit [OF q(1)] lit [OF q(2)] lit [OF q(3)] lit [OF q(4)]
    by (simp add: inCls_HexI inCls_Digit)
qed



section \<open>The address rule after the number rule\<close>

lemma replaceAll_noMatchAt: "noMatchAt re prev s \<Longrightarrow> replaceAll re rep prev s = s"
  by (induction s arbitrary: prev) simp_all

lemma digit_word: "isDigit c \<Longrightarrow> isWord c"
  by (auto simp: isDigit_def isWord_def)

text \<open>
  The number pattern \<^verbatim>\<open>\b\d+\b\<close> matches at a position exactly when no word character
  precedes it, a digit stands there, and no word character follows the run of digits;
  it then takes the whole run.
\<close>

lemma num_match:
  "matchItems numRe prev s =
     (if \<not> wordBefore prev \<and> s \<noteq> [] \<and> isDigit (hd s) \<and> \<not> wordAfter (dropWhile isDigit s)
      then Some [length (takeWhile isDigit s)] else None)"
proof -
  let ?k = "length (takeWhile isDigit s)"
  have gc: "greedyCount Digit None s = ?k" by (simp add: greedyCount_def inCls_Digit)
  have dropk: "drop ?k s = dropWhile isDigit s" by (simp add: dropWhile_eq_drop)
  have inner: "matchItems [WordB] (prevAfter prev s j) (drop j s) = None" if "1 \<le> j" "j < ?k" for j
  proof -
    have jl: "j < length s" using that(2) by (meson length_takeWhile_le less_le_trans)
    have "isDigit (s ! j)" using that(2) by (metis takeWhile_nth nth_mem set_takeWhileD)
    then have a: "wordAfter (drop j s)"
      using jl by (simp add: wordAfter_def digit_word Cons_nth_drop_Suc [symmetric])
    have "j - 1 < ?k" using that by simp
    then have "isDigit (s ! (j - 1))" by (metis takeWhile_nth nth_mem set_takeWhileD)
    then have b: "wordBefore (prevAfter prev s j)"
      using that(1) by (auto simp: prevAfter_def wordBefore_def digit_word)
    show ?thesis using a b by (simp add: atWordB_def)
  qed
  show ?thesis
  proof (cases "s \<noteq> [] \<and> isDigit (hd s)")
    case False
    then have k0: "?k = 0" by (cases s) simp_all
    have "tryRep [WordB] prev s 1 ?k = None" unfolding k0 by (simp add: tryRep.simps)
    then show ?thesis using False gc by (auto simp: numRe_def)
  next
    case True
    then have k1: "1 \<le> ?k" by (cases s) simp_all
    have wa: "wordAfter s" using True by (cases s) (simp_all add: wordAfter_def digit_word)
    have "?k - 1 < ?k" using k1 by simp
    then have "isDigit (s ! (?k - 1))" by (metis takeWhile_nth nth_mem set_takeWhileD)
    then have wb: "wordBefore (prevAfter prev s ?k)"
      using k1 by (auto simp: prevAfter_def wordBefore_def digit_word)
    show ?thesis
    proof (cases "wordAfter (dropWhile isDigit s)")
      case True
      have "matchItems [WordB] (prevAfter prev s j) (drop j s) = None" if "1 \<le> j" "j \<le> ?k" for j
      proof (cases "j < ?k")
        case True
        then show ?thesis using that(1) by (intro inner)
      next
        case False
        then have "j = ?k" using that(2) by simp
        then show ?thesis using wb \<open>wordAfter (dropWhile isDigit s)\<close> dropk by (simp add: atWordB_def)
      qed
      then have "tryRep [WordB] prev s 1 ?k = None" by (rule tryRep_None)
      then show ?thesis using True gc by (simp add: numRe_def)
    next
      case False
      have here: "matchItems [WordB] (prevAfter prev s ?k) (drop ?k s) = Some []"
        using wb False dropk by (simp add: atWordB_def)
      have "tryRep [WordB] prev s 1 ?k = Some [?k]"
        by (rule tryRep_Some [OF k1 le_refl here]) simp
      then show ?thesis using \<open>s \<noteq> [] \<and> isDigit (hd s)\<close> False gc wa
        by (simp add: numRe_def atWordB_def)
    qed
  qed
qed


lemma num_nondigit: "s = [] \<or> \<not> isDigit (hd s) \<Longrightarrow> matchItems numRe prev s = None"
  by (auto simp: num_match)

lemma num_wordBefore: "wordBefore prev \<Longrightarrow> matchItems numRe prev s = None"
  by (simp add: num_match)

text \<open>
  Where the address pattern matches, the number pattern matches too: the first group of
  an address is a run of digits between a word boundary and a dot.
\<close>

lemma ip_num:
  assumes "matchItems ipRe prev s = Some ls"
  shows "matchItems numRe prev s \<noteq> None"
proof -
  let ?k = "length (takeWhile isDigit s)"
  let ?rest = "[Rep Digit 1 (Some 3), one CHR ''.'', Rep Digit 1 (Some 3), one CHR ''.'',
                Rep Digit 1 (Some 3), WordB]"
  from assms have wb: "atWordB prev s"
    and tr: "tryRep (one CHR ''.'' # ?rest) prev s 1 (greedyCount Digit (Some 3) s) = Some ls"
    by (auto simp: ipRe_def split: if_splits)
  from tryRep_SomeD [OF tr] obtain j ls' where j: "1 \<le> j" "j \<le> greedyCount Digit (Some 3) s"
    and dot: "matchItems (one CHR ''.'' # ?rest) (prevAfter prev s j) (drop j s) = Some ls'"
    by blast
  from j(2) have jk: "j \<le> ?k" by (simp add: greedyCount_def inCls_Digit)
  from dot obtain r where
    "tryRep ?rest (prevAfter prev s j) (drop j s) 1 (greedyCount (Lit CHR ''.'') (Some 1) (drop j s)) = Some r"
    by simp
  from tryRep_SomeD [OF this] have "1 \<le> greedyCount (Lit CHR ''.'') (Some 1) (drop j s)"
    by auto
  then have "takeWhile (inCls (Lit CHR ''.'')) (drop j s) \<noteq> []"
    by (auto simp: greedyCount_def)
  then have ne: "drop j s \<noteq> []" and hd: "hd (drop j s) = CHR ''.''"
    by (cases "drop j s"; simp split: if_splits)+
  from ne have jl: "j < length s" by simp
  from hd jl have sj: "s ! j = CHR ''.''" by (simp add: hd_drop_conv_nth)
  have "\<not> j < ?k"
  proof
    assume "j < ?k"
    then have "isDigit (s ! j)" by (metis takeWhile_nth nth_mem set_takeWhileD)
    then show False by (simp add: sj isDigit_def)
  qed
  with jk have jeq: "j = ?k" by simp
  have dw: "dropWhile isDigit s = drop j s" by (simp add: jeq dropWhile_eq_drop)
  have nwa: "\<not> wordAfter (dropWhile isDigit s)"
    using ne hd unfolding dw by (cases "drop j s") (simp_all add: wordAfter_def isWord_def isDigit_def)
  from j(1) jk have dg: "s \<noteq> [] \<and> isDigit (hd s)" by (cases s) (auto split: if_splits)
  then have "wordAfter s" by (cases s) (simp_all add: wordAfter_def digit_word)
  with wb have "\<not> wordBefore prev" by (simp add: atWordB_def)
  with dg nwa show ?thesis by (simp add: num_match)
qed

lemma noMatchAt_ip: "noMatchAt numRe prev s \<Longrightarrow> noMatchAt ipRe prev s"
proof (induction s arbitrary: prev)
  case Nil
  then show ?case using ip_num [of prev "[]"] by (cases "matchItems ipRe prev []") simp_all
next
  case (Cons c cs)
  then show ?case using ip_num [of prev "c # cs"]
    by (cases "matchItems ipRe prev (c # cs)") simp_all
qed

text \<open>
  After the number replacement the number pattern matches nowhere: a run of digits that
  was left in place still has a word character on one side, and \<^verbatim>\<open><N>\<close> holds no digit.
\<close>

lemma num_run:
  "wordBefore p \<Longrightarrow>
   wordAfter (dropWhile isDigit (replaceAll numRe rep p s)) = wordAfter (dropWhile isDigit s)"
proof (induction s arbitrary: p)
  case Nil
  then show ?case by (simp add: num_wordBefore)
next
  case (Cons d ds)
  have "wordBefore (Some d)" if "isDigit d" using that by (simp add: wordBefore_def digit_word)
  then show ?case using Cons by (simp add: num_wordBefore wordAfter_def)
qed

lemma num_replaced:
  "wordBefore prev' = wordBefore prev \<or> \<not> wordAfter s \<Longrightarrow>
   noMatchAt numRe prev' (replaceAll numRe ''<N>'' prev s)"
proof (induction s arbitrary: prev prev' rule: length_induct)
  case (1 s)
  note IH = 1(1) [rule_format] and inv = 1(2)
  show ?case
  proof (cases s)
    case Nil
    then show ?thesis by (simp add: num_nondigit)
  next
    case (Cons c cs)
    show ?thesis
    proof (cases "matchItems numRe prev s")
      case None
      have rest: "noMatchAt numRe (Some c) (replaceAll numRe ''<N>'' (Some c) cs)"
        by (rule IH) (simp_all add: Cons)
      have here: "matchItems numRe prev' (c # replaceAll numRe ''<N>'' (Some c) cs) = None"
      proof (rule ccontr)
        assume "\<not> ?thesis"
        then have nb: "\<not> wordBefore prev'" and dg: "isDigit c"
          and na: "\<not> wordAfter (dropWhile isDigit (replaceAll numRe ''<N>'' (Some c) cs))"
          by (auto simp: num_match split: if_splits)
        from dg have "wordAfter s" by (simp add: Cons wordAfter_def digit_word)
        with inv nb have nb': "\<not> wordBefore prev" by simp
        from dg have "wordBefore (Some c)" by (simp add: wordBefore_def digit_word)
        from na have "\<not> wordAfter (dropWhile isDigit cs)"
          unfolding num_run [OF \<open>wordBefore (Some c)\<close>] .
        with nb' dg have "matchItems numRe prev s \<noteq> None" by (simp add: num_match Cons)
        with None show False by simp
      qed
      show ?thesis using None rest here by (simp add: Cons)
    next
      case (Some ls)
      let ?k = "length (takeWhile isDigit s)"
      from Some have ls: "ls = [?k]" and dg: "isDigit c"
        and na: "\<not> wordAfter (dropWhile isDigit s)"
        by (auto simp: num_match Cons split: if_splits)
      from dg obtain l where k: "?k = Suc l" by (simp add: Cons)
      have dr: "drop l cs = dropWhile isDigit s"
        using k by (metis dropWhile_eq_drop drop_Suc_Cons Cons)
      have rest: "noMatchAt numRe (Some CHR ''>'')
                    (replaceAll numRe ''<N>'' (Some (s ! l)) (drop l cs))"
      proof (rule IH)
        have "length (dropWhile isDigit s) \<le> length cs"
          using dg by (simp add: Cons length_dropWhile_le)
        then show "length (drop l cs) < length s" unfolding dr by (simp add: Cons)
        show "wordBefore (Some CHR ''>'') = wordBefore (Some (s ! l)) \<or> \<not> wordAfter (drop l cs)"
          unfolding dr using na by simp
      qed
      have R: "replaceAll numRe ''<N>'' prev s
                 = ''<N>'' @ replaceAll numRe ''<N>'' (Some (s ! l)) (drop l cs)"
        using Some [unfolded Cons] ls k by (simp add: Cons)
      show ?thesis unfolding R using rest by (simp add: num_nondigit isDigit_def)
    qed
  qed
qed

text \<open>
  So the address replacement of \<^verbatim>\<open>extractPattern\<close>, which runs on the result of the number
  replacement, changes no message.
\<close>

lemma ip_rule_dead:
  "replace ipRe ''<IP>'' (replace numRe ''<N>'' m) = replace numRe ''<N>'' m"
  unfolding replace_def
  by (rule replaceAll_noMatchAt [OF noMatchAt_ip [OF num_replaced]]) simp

section \<open>Trace trees\<close>

lemma createNodes_snoc:
  "createNodes (xs @ [x]) = (createNodes xs)(spanId x \<mapsto> newNode x)"
  by (simp add: createNodes_def newNode_def)

lemma dom_createNodes: "dom (createNodes spans) = spanId ` set spans"
proof (induction spans rule: rev_induct)
  case Nil
  then show ?case by (simp add: createNodes_def)
next
  case (snoc x xs)
  have "dom (createNodes (xs @ [x])) = insert (spanId x) (dom (createNodes xs))"
    unfolding createNodes_snoc by (rule dom_fun_upd [THEN trans]) simp
  then show ?case using snoc by simp
qed

lemma createNodes_at:
  "distinct (map spanId spans) \<Longrightarrow> s \<in> set spans \<Longrightarrow> createNodes spans (spanId s) = Some (newNode s)"
proof (induction spans rule: rev_induct)
  case Nil
  then show ?case by simp
next
  case (snoc x xs)
  show ?case
  proof (cases "s = x")
    case True
    then show ?thesis by (simp add: createNodes_snoc)
  next
    case False
    then have s: "s \<in> set xs" using snoc.prems by simp
    have "spanId x \<notin> spanId ` set xs" using snoc.prems(1) by simp
    then have "spanId s \<noteq> spanId x" using s by (metis imageI)
    then show ?thesis using snoc s by (simp add: createNodes_snoc)
  qed
qed

lemma linkSpan_root:
  "dom m = spanId ` set spans \<Longrightarrow> validParent spans x = None \<Longrightarrow>
   linkSpan (m, rs) x = (m, rs @ [spanId x])"
  by (auto simp: linkSpan_def validParent_def truthy_def Let_def domIff split: if_splits option.splits)

lemma linkSpan_child:
  "dom m = spanId ` set spans \<Longrightarrow> validParent spans x = Some p \<Longrightarrow>
   \<exists>nd. m p = Some nd \<and> linkSpan (m, rs) x = (m(p \<mapsto> nd\<lparr>children := children nd @ [spanId x]\<rparr>), rs)"
  by (auto simp: linkSpan_def validParent_def truthy_def Let_def domIff split: if_splits option.splits)

lemma foldl_linkSpan:
  assumes "dom m = spanId ` set spans"
  shows "\<exists>m'. foldl linkSpan (m, rs) xs
              = (m', rs @ map spanId (filter (\<lambda>s. validParent spans s = None) xs))
           \<and> dom m' = spanId ` set spans
           \<and> (\<forall>n nd. m n = Some nd \<longrightarrow> m' n = Some (addChildren spans xs n nd))"
  using assms
proof (induction xs arbitrary: m rs)
  case Nil
  then show ?case by (simp add: addChildren_def)
next
  case (Cons x xs)
  show ?case
  proof (cases "validParent spans x")
    case None
    have step: "linkSpan (m, rs) x = (m, rs @ [spanId x])"
      using Cons.prems None by (rule linkSpan_root)
    obtain m' where m': "foldl linkSpan (m, rs @ [spanId x]) xs
              = (m', (rs @ [spanId x]) @ map spanId (filter (\<lambda>s. validParent spans s = None) xs))"
      "dom m' = spanId ` set spans"
      "\<forall>n nd. m n = Some nd \<longrightarrow> m' n = Some (addChildren spans xs n nd)"
      using Cons.IH [OF Cons.prems] by blast
    show ?thesis using m' None step by (auto simp: addChildren_def)
  next
    case (Some p)
    obtain nd where nd: "m p = Some nd"
      and step: "linkSpan (m, rs) x = (m(p \<mapsto> nd\<lparr>children := children nd @ [spanId x]\<rparr>), rs)"
      using linkSpan_child [OF Cons.prems Some] by blast
    let ?m1 = "m(p \<mapsto> nd\<lparr>children := children nd @ [spanId x]\<rparr>)"
    have d1: "dom ?m1 = spanId ` set spans" using Cons.prems nd by auto
    obtain m' where m': "foldl linkSpan (?m1, rs) xs
              = (m', rs @ map spanId (filter (\<lambda>s. validParent spans s = None) xs))"
      "dom m' = spanId ` set spans"
      "\<forall>n nd. ?m1 n = Some nd \<longrightarrow> m' n = Some (addChildren spans xs n nd)"
      using Cons.IH [OF d1] by blast
    have "m' n = Some (addChildren spans (x # xs) n nd')" if "m n = Some nd'" for n nd'
    proof (cases "n = p")
      case True
      then have "nd' = nd" using that nd by simp
      then show ?thesis using m'(3) True Some by (simp add: addChildren_def)
    next
      case False
      then show ?thesis using m'(3) that Some by (simp add: addChildren_def)
    qed
    then show ?thesis using m' Some step by auto
  qed
qed

lemma linkSpans_result:
  assumes "distinct (map spanId spans)"
  shows "\<exists>m. linkSpans (createNodes spans) spans
             = (m, map spanId (filter (\<lambda>s. validParent spans s = None) spans))
          \<and> dom m = spanId ` set spans
          \<and> (\<forall>s\<in>set spans. m (spanId s) = Some (linkedNode spans s))"
proof -
  obtain m where m: "foldl linkSpan (createNodes spans, []) spans
              = (m, [] @ map spanId (filter (\<lambda>s. validParent spans s = None) spans))"
      "dom m = spanId ` set spans"
      "\<forall>n nd. createNodes spans n = Some nd \<longrightarrow> m n = Some (addChildren spans spans n nd)"
    using foldl_linkSpan [OF dom_createNodes, of spans "[]" spans] by blast
  have "m (spanId s) = Some (linkedNode spans s)" if "s \<in> set spans" for s
    using m(3) createNodes_at [OF assms that]
    by (simp add: addChildren_def newNode_def linkedNode_def)
  then show ?thesis using m by (auto simp: linkSpans_def)
qed

lemma span_unique:
  "distinct (map spanId spans) \<Longrightarrow> s \<in> set spans \<Longrightarrow> t \<in> set spans \<Longrightarrow> spanId s = spanId t
   \<Longrightarrow> s = t"
  by (meson distinct_map inj_onD)

lemma chainEnds_known: "chainEnds spans n k \<Longrightarrow> n \<in> spanId ` set spans"
  by (induction rule: chainEnds.induct) auto

lemma chainEnds_unique:
  assumes d: "distinct (map spanId spans)"
  shows "chainEnds spans n k \<Longrightarrow> chainEnds spans n j \<Longrightarrow> k = j"
proof (induction arbitrary: j rule: chainEnds.induct)
  case (root s)
  from root.prems show ?case
  proof (cases rule: chainEnds.cases)
    case (root t)
    then show ?thesis by simp
  next
    case (child t p k')
    then have "t = s" using span_unique [OF d] root.hyps(1) by metis
    then show ?thesis using child root.hyps by simp
  qed
next
  case (child s p k)
  note hyps = child.hyps and IH = child.IH
  from child.prems show ?case
  proof (cases rule: chainEnds.cases)
    case (root t)
    then have "t = s" using span_unique [OF d] hyps(1) by metis
    then show ?thesis using root hyps by simp
  next
    case (child t q k')
    then have "t = s" using span_unique [OF d] hyps(1) by metis
    then have "q = p" using child hyps(2) by simp
    then show ?thesis using child IH by simp
  qed
qed

lemma chainEnds_chain:
  assumes d: "distinct (map spanId spans)"
  shows "chainEnds spans n k \<Longrightarrow>
     \<exists>A. A \<subseteq> spanId ` set spans \<and> card A = Suc k \<and> (\<forall>x\<in>A. \<exists>j\<le>k. chainEnds spans x j)"
proof (induction rule: chainEnds.induct)
  case (root s)
  have "chainEnds spans (spanId s) 0" using root by (rule chainEnds.root)
  then have "{spanId s} \<subseteq> spanId ` set spans \<and> card {spanId s} = Suc 0
      \<and> (\<forall>x\<in>{spanId s}. \<exists>j\<le>0. chainEnds spans x j)"
    using root by auto
  then show ?case by blast
next
  case (child s p k)
  then obtain A where A: "A \<subseteq> spanId ` set spans" "card A = Suc k"
    "\<forall>x\<in>A. \<exists>j\<le>k. chainEnds spans x j" by blast
  have top: "chainEnds spans (spanId s) (Suc k)" using child.hyps by (rule chainEnds.child)
  have fin: "finite A" using A(1) by (meson finite_imageI finite_set finite_subset)
  have notin: "spanId s \<notin> A"
  proof
    assume "spanId s \<in> A"
    then obtain j where "j \<le> k" "chainEnds spans (spanId s) j" using A(3) by blast
    then show False using chainEnds_unique [OF d top] by fastforce
  qed
  let ?B = "insert (spanId s) A"
  have "?B \<subseteq> spanId ` set spans" using A(1) child.hyps(1) by auto
  moreover have "card ?B = Suc (Suc k)" using fin notin A(2) by simp
  moreover have "\<forall>x\<in>?B. \<exists>j\<le>Suc k. chainEnds spans x j"
    using A(3) top by (metis insert_iff le_SucI le_refl)
  ultimately show ?case by blast
qed

lemma chainEnds_bound:
  assumes d: "distinct (map spanId spans)" and c: "chainEnds spans n k"
  shows "k < length spans"
proof -
  obtain A where A: "A \<subseteq> spanId ` set spans" "card A = Suc k"
    using chainEnds_chain [OF d c] by blast
  have "card A \<le> card (spanId ` set spans)" using A(1) by (simp add: card_mono)
  also have "\<dots> \<le> card (set spans)" by (rule card_image_le) simp
  also have "\<dots> \<le> length spans" by (rule card_length)
  finally show ?thesis using A(2) by simp
qed

lemma depthStep_refl: "depthStep spans m m"
  by (simp add: depthStep_def)

lemma depthStep_trans:
  assumes "depthStep spans m a" and "depthStep spans a b"
  shows "depthStep spans m b"
  unfolding depthStep_def
proof (intro conjI allI impI)
  show "dom b = dom m" using assms by (simp add: depthStep_def)
next
  fix x nd assume "m x = Some nd"
  then obtain na where na: "a x = Some na" "node_span na = node_span nd" "children na = children nd"
    "depth na = depth nd \<or> chainEnds spans x (depth na)"
    using assms(1) unfolding depthStep_def by blast
  then obtain nb where nb: "b x = Some nb" "node_span nb = node_span na" "children nb = children na"
    "depth nb = depth na \<or> chainEnds spans x (depth nb)"
    using assms(2) unfolding depthStep_def by blast
  show "\<exists>nd'. b x = Some nd' \<and> node_span nd' = node_span nd \<and> children nd' = children nd
            \<and> (depth nd' = depth nd \<or> chainEnds spans x (depth nd'))"
    using na nb by auto
qed

lemma shape_depthStep: "shape spans m \<Longrightarrow> depthStep spans m m' \<Longrightarrow> shape spans m'"
  unfolding shape_def depthStep_def by (metis (no_types, lifting))

lemma ranked_depthStep:
  assumes "ranked spans m X" and "depthStep spans m m'"
  shows "ranked spans m' X"
  unfolding ranked_def
proof
  fix x assume "x \<in> X"
  then obtain nd where nd: "m x = Some nd" "chainEnds spans x (depth nd)"
    using assms(1) by (auto simp: ranked_def)
  then obtain nd' where "m' x = Some nd'" "depth nd' = depth nd \<or> chainEnds spans x (depth nd')"
    using assms(2) unfolding depthStep_def by blast
  then show "\<exists>nd. m' x = Some nd \<and> chainEnds spans x (depth nd)" using nd(2) by auto
qed

lemma ranked_Un: "ranked spans m X \<Longrightarrow> ranked spans m Y \<Longrightarrow> ranked spans m (X \<union> Y)"
  by (auto simp: ranked_def)

lemma shape_node:
  "shape spans m \<Longrightarrow> chainEnds spans node d \<Longrightarrow>
   \<exists>n. m node = Some n \<and> set (children n) = childRel spans `` {node}"
  by (drule chainEnds_known) (auto simp: shape_def)

lemma child_rank:
  "chainEnds spans p d \<Longrightarrow> (p, c) \<in> childRel spans \<Longrightarrow> chainEnds spans c (Suc d)"
  by (auto simp: childRel_def intro: chainEnds.child)

lemma below_unfold:
  "(childRel spans)\<^sup>* `` {p} = insert p (\<Union>c\<in>childRel spans `` {p}. (childRel spans)\<^sup>* `` {c})"
proof (intro set_eqI iffI)
  fix x assume "x \<in> (childRel spans)\<^sup>* `` {p}"
  then have "(p, x) \<in> (childRel spans)\<^sup>*" by simp
  then show "x \<in> insert p (\<Union>c\<in>childRel spans `` {p}. (childRel spans)\<^sup>* `` {c})"
    by (cases rule: converse_rtranclE) auto
next
  fix x assume "x \<in> insert p (\<Union>c\<in>childRel spans `` {p}. (childRel spans)\<^sup>* `` {c})"
  then show "x \<in> (childRel spans)\<^sup>* `` {p}"
    by (auto intro: converse_rtrancl_into_rtrancl)
qed

lemma setDepth_ok:
  assumes d: "distinct (map spanId spans)"
  shows "shape spans m \<Longrightarrow> chainEnds spans node k \<Longrightarrow> length spans < fuel + k \<Longrightarrow>
      \<exists>m'. setDepth fuel m node k = Some m' \<and> depthStep spans m m'
          \<and> ranked spans m' ((childRel spans)\<^sup>* `` {node})"
    and "shape spans m \<Longrightarrow> \<forall>c\<in>set cs. chainEnds spans c k \<Longrightarrow> length spans < fuel + k \<Longrightarrow>
      \<exists>m'. setDepthEach fuel m cs k = Some m' \<and> depthStep spans m m'
          \<and> ranked spans m' (\<Union>c\<in>set cs. (childRel spans)\<^sup>* `` {c})"
proof (induction fuel m node k and fuel m cs k rule: setDepth_setDepthEach.induct)
  case (1 m node k)
  then show ?case using chainEnds_bound [OF d] by fastforce
next
  case (2 fuel m node k)
  obtain n where n: "m node = Some n" "set (children n) = childRel spans `` {node}"
    using shape_node [OF "2.prems"(1,2)] by blast
  let ?m1 = "m(node \<mapsto> n\<lparr>depth := k\<rparr>)"
  have s1: "depthStep spans m ?m1"
    using n(1) "2.prems"(2) by (auto simp: depthStep_def)
  have sh1: "shape spans ?m1" using "2.prems"(1) s1 by (rule shape_depthStep)
  have ch: "\<forall>c\<in>set (children n). chainEnds spans c (k + 1)"
    using n(2) child_rank [OF "2.prems"(2)] by auto
  have fu: "length spans < fuel + (k + 1)" using "2.prems"(3) by simp
  obtain m' where m': "setDepthEach fuel ?m1 (children n) (k + 1) = Some m'"
    "depthStep spans ?m1 m'"
    "ranked spans m' (\<Union>c\<in>set (children n). (childRel spans)\<^sup>* `` {c})"
    using "2.IH" [OF n(1) sh1 ch fu] by blast
  have r1: "ranked spans ?m1 {node}" using "2.prems"(2) by (simp add: ranked_def)
  have "ranked spans m' {node}" using r1 m'(2) by (rule ranked_depthStep)
  then have "ranked spans m' ((childRel spans)\<^sup>* `` {node})"
    using m'(3) unfolding below_unfold [of spans node] n(2) [symmetric] by (auto simp: ranked_def)
  moreover have "depthStep spans m m'" using s1 m'(2) by (rule depthStep_trans)
  ultimately show ?case using n(1) m'(1) by simp
next
  case (3 fuel m k)
  then show ?case by (simp add: depthStep_refl ranked_def)
next
  case (4 fuel m child rest k)
  have c: "chainEnds spans child k" using "4.prems"(2) by simp
  obtain ma where ma: "setDepth fuel m child k = Some ma" "depthStep spans m ma"
    "ranked spans ma ((childRel spans)\<^sup>* `` {child})"
    using "4.IH"(1) [OF "4.prems"(1) c "4.prems"(3)] by blast
  have sha: "shape spans ma" using "4.prems"(1) ma(2) by (rule shape_depthStep)
  have r: "\<forall>c\<in>set rest. chainEnds spans c k" using "4.prems"(2) by simp
  obtain mb where mb: "setDepthEach fuel ma rest k = Some mb" "depthStep spans ma mb"
    "ranked spans mb (\<Union>c\<in>set rest. (childRel spans)\<^sup>* `` {c})"
    using "4.IH"(2) [OF ma(1) sha r "4.prems"(3)] by blast
  have "ranked spans mb ((childRel spans)\<^sup>* `` {child})" using ma(3) mb(2) by (rule ranked_depthStep)
  then have "ranked spans mb (\<Union>c\<in>set (child # rest). (childRel spans)\<^sup>* `` {c})"
    using mb(3) by (auto simp: ranked_def)
  moreover have "depthStep spans m mb" using ma(2) mb(2) by (rule depthStep_trans)
  ultimately show ?case using ma(1) mb(1) by simp
qed

lemma set_insertBy: "set (insertBy cmp x xs) = insert x (set xs)"
  by (induction xs) auto

lemma set_sortBy: "set (sortBy cmp xs) = set xs"
  by (induction xs) (simp_all add: sortBy_def set_insertBy)

lemma sortStep_refl: "sortStep m m"
  by (simp add: sortStep_def)

lemma sortStep_trans:
  assumes "sortStep m a" and "sortStep a b"
  shows "sortStep m b"
  unfolding sortStep_def
proof (intro conjI allI impI)
  show "dom b = dom m" using assms by (simp add: sortStep_def)
next
  fix x nd assume "m x = Some nd"
  then obtain na where na: "a x = Some na" "node_span na = node_span nd" "depth na = depth nd"
    "set (children na) = set (children nd)"
    using assms(1) unfolding sortStep_def by blast
  then obtain nb where nb: "b x = Some nb" "node_span nb = node_span na" "depth nb = depth na"
    "set (children nb) = set (children na)"
    using assms(2) unfolding sortStep_def by blast
  show "\<exists>nd'. b x = Some nd' \<and> node_span nd' = node_span nd \<and> depth nd' = depth nd
            \<and> set (children nd') = set (children nd)"
    using na nb by auto
qed

lemma shape_sortStep: "shape spans m \<Longrightarrow> sortStep m m' \<Longrightarrow> shape spans m'"
  unfolding shape_def sortStep_def by (metis (no_types, lifting))

lemma sortChildren_ok:
  assumes d: "distinct (map spanId spans)"
  shows "shape spans m \<Longrightarrow> chainEnds spans node k \<Longrightarrow> length spans < fuel + k \<Longrightarrow>
      \<exists>m'. sortChildren dateOf fuel m node = Some m' \<and> sortStep m m'"
    and "shape spans m \<Longrightarrow> \<forall>c\<in>set cs. chainEnds spans c k \<Longrightarrow> length spans < fuel + k \<Longrightarrow>
      \<exists>m'. sortChildrenEach dateOf fuel m cs = Some m' \<and> sortStep m m'"
proof (induction dateOf fuel m node and dateOf fuel m cs arbitrary: k and k
    rule: sortChildren_sortChildrenEach.induct)
  case (1 dateOf m node)
  then show ?case using chainEnds_bound [OF d] by fastforce
next
  case (2 dateOf fuel m node)
  obtain n where n: "m node = Some n" "set (children n) = childRel spans `` {node}"
    using shape_node [OF "2.prems"(1,2)] by blast
  define sorted where "sorted = sortBy (byTimestamp dateOf m) (children n)"
  let ?m1 = "m(node \<mapsto> n\<lparr>children := sorted\<rparr>)"
  have ss: "set sorted = set (children n)" by (simp add: sorted_def set_sortBy)
  have s1: "sortStep m ?m1" using n(1) ss by (auto simp: sortStep_def)
  have sh1: "shape spans ?m1" using "2.prems"(1) s1 by (rule shape_sortStep)
  have ch: "\<forall>c\<in>set sorted. chainEnds spans c (Suc k)"
    using n(2) ss child_rank [OF "2.prems"(2)] by auto
  have fu: "length spans < fuel + Suc k" using "2.prems"(3) by simp
  obtain m' where m': "sortChildrenEach dateOf fuel ?m1 sorted = Some m'" "sortStep ?m1 m'"
    using "2.IH" [OF n(1) sorted_def sh1 ch fu] by blast
  have "sortStep m m'" using s1 m'(2) by (rule sortStep_trans)
  then show ?case using n(1) m'(1) by (simp add: sorted_def Let_def)
next
  case (3 dateOf fuel m)
  then show ?case by (simp add: sortStep_refl)
next
  case (4 dateOf fuel m child rest)
  have c: "chainEnds spans child k" using "4.prems"(2) by simp
  obtain ma where ma: "sortChildren dateOf fuel m child = Some ma" "sortStep m ma"
    using "4.IH"(1) [OF "4.prems"(1) c "4.prems"(3)] by blast
  have sha: "shape spans ma" using "4.prems"(1) ma(2) by (rule shape_sortStep)
  have r: "\<forall>c\<in>set rest. chainEnds spans c k" using "4.prems"(2) by simp
  obtain mb where mb: "sortChildrenEach dateOf fuel ma rest = Some mb" "sortStep ma mb"
    using "4.IH"(2) [OF ma(1) sha r "4.prems"(3)] by blast
  have "sortStep m mb" using ma(2) mb(2) by (rule sortStep_trans)
  then show ?case using ma(1) mb(1) by simp
qed

lemma ranked_sortStep:
  assumes "ranked spans m X" and "sortStep m m'"
  shows "ranked spans m' X"
  unfolding ranked_def
proof
  fix x assume "x \<in> X"
  then obtain nd where nd: "m x = Some nd" "chainEnds spans x (depth nd)"
    using assms(1) by (auto simp: ranked_def)
  then obtain nd' where "m' x = Some nd'" "depth nd' = depth nd"
    using assms(2) unfolding sortStep_def by blast
  then show "\<exists>nd. m' x = Some nd \<and> chainEnds spans x (depth nd)" using nd(2) by auto
qed

lemma childRel_image:
  "childRel spans `` {p} = spanId ` {t \<in> set spans. validParent spans t = Some p}"
  by (auto simp: childRel_def)

lemma shape_linked:
  assumes "dom m = spanId ` set spans" and "\<forall>s\<in>set spans. m (spanId s) = Some (linkedNode spans s)"
  shows "shape spans m"
  unfolding shape_def using assms by (auto simp: linkedNode_def childRel_def)

lemma buildTraceTree_shape:
  assumes d: "distinct (map spanId spans)" and fu: "length spans < fuel"
  shows "\<exists>f. buildTraceTree dateOf fuel spans = Some f
      \<and> roots f = map spanId (filter (\<lambda>s. validParent spans s = None) spans)
      \<and> shape spans (nodes f)
      \<and> ranked spans (nodes f) (\<Union>r\<in>set (roots f). (childRel spans)\<^sup>* `` {r})"
proof -
  let ?roots = "map spanId (filter (\<lambda>s. validParent spans s = None) spans)"
  obtain m1 where m1: "linkSpans (createNodes spans) spans = (m1, ?roots)"
    "dom m1 = spanId ` set spans" "\<forall>s\<in>set spans. m1 (spanId s) = Some (linkedNode spans s)"
    using linkSpans_result [OF d] by blast
  have sh1: "shape spans m1" using m1(2,3) by (rule shape_linked)
  have rt: "\<forall>r\<in>set ?roots. chainEnds spans r 0" by (auto intro: chainEnds.root)
  have f0: "length spans < fuel + 0" using fu by simp
  obtain m2 where m2: "setDepthEach fuel m1 ?roots 0 = Some m2" "depthStep spans m1 m2"
    "ranked spans m2 (\<Union>r\<in>set ?roots. (childRel spans)\<^sup>* `` {r})"
    using setDepth_ok(2) [OF d sh1 rt f0] by blast
  have sh2: "shape spans m2" using sh1 m2(2) by (rule shape_depthStep)
  obtain m3 where m3: "sortChildrenEach dateOf fuel m2 ?roots = Some m3" "sortStep m2 m3"
    using sortChildren_ok(2) [OF d sh2 rt f0] by blast
  have sh3: "shape spans m3" using sh2 m3(2) by (rule shape_sortStep)
  have r3: "ranked spans m3 (\<Union>r\<in>set ?roots. (childRel spans)\<^sup>* `` {r})"
    using m2(3) m3(2) by (rule ranked_sortStep)
  have "buildTraceTree dateOf fuel spans = Some \<lparr>roots = ?roots, nodes = m3\<rparr>"
    by (simp add: buildTraceTree_def m1(1) m2(1) m3(1))
  then show ?thesis using sh3 r3 by simp
qed

lemma inForest_below:
  assumes "shape spans (nodes f)" and "\<forall>r\<in>set (roots f). chainEnds spans r 0"
  shows "inForest f x \<Longrightarrow>
    x \<in> (\<Union>r\<in>set (roots f). (childRel spans)\<^sup>* `` {r}) \<and> (\<exists>k. chainEnds spans x k)"
proof (induction rule: inForest.induct)
  case (root r)
  then show ?case using assms(2) by auto
next
  case (child p n c)
  then obtain k where k: "chainEnds spans p k" by blast
  obtain n' where "nodes f p = Some n'" "set (children n') = childRel spans `` {p}"
    using shape_node [OF assms(1) k] by blast
  then have pc: "(p, c) \<in> childRel spans" using child.hyps(2,3) by auto
  then have "chainEnds spans c (Suc k)" using k by (rule child_rank [rotated])
  moreover have "c \<in> (\<Union>r\<in>set (roots f). (childRel spans)\<^sup>* `` {r})"
    using child.IH pc by (auto intro: rtrancl_into_rtrancl)
  ultimately show ?case by blast
qed

lemma chainEnds_inForest:
  assumes "shape spans (nodes f)"
    and "roots f = map spanId (filter (\<lambda>s. validParent spans s = None) spans)"
  shows "chainEnds spans x k \<Longrightarrow> inForest f x"
proof (induction rule: chainEnds.induct)
  case (root s)
  then have "spanId s \<in> set (roots f)" using assms(2) by auto
  then show ?case by (rule inForest.root)
next
  case (child s p k)
  obtain n where n: "nodes f p = Some n" "set (children n) = childRel spans `` {p}"
    using shape_node [OF assms(1) child.hyps(3)] by blast
  have "spanId s \<in> set (children n)" using n(2) child.hyps(1,2) by (auto simp: childRel_def)
  with child.IH n(1) show ?case by (rule inForest.child)
qed


text \<open>
  Fuel only bounds the depth of the recursion: a walk that ends with some fuel ends with
  the same result with more.
\<close>

lemma setDepth_more_fuel:
  "setDepth fuel m node d = Some m' \<Longrightarrow> setDepth (Suc fuel) m node d = Some m'"
  "setDepthEach fuel m cs d = Some m' \<Longrightarrow> setDepthEach (Suc fuel) m cs d = Some m'"
proof (induction fuel m node d and fuel m cs d arbitrary: m' and m'
    rule: setDepth_setDepthEach.induct)
  case (1 m node d)
  then show ?case by simp
next
  case (2 fuel m node d)
  then obtain n where n: "m node = Some n"
    and e: "setDepthEach fuel (m(node \<mapsto> n\<lparr>depth := d\<rparr>)) (children n) (d + 1) = Some m'"
    by (auto split: option.splits)
  have "setDepthEach (Suc fuel) (m(node \<mapsto> n\<lparr>depth := d\<rparr>)) (children n) (d + 1) = Some m'"
    using "2.IH" [OF n e] .
  then show ?case using n by simp
next
  case (3 fuel m d)
  then show ?case by simp
next
  case (4 fuel m child rest d)
  then obtain ma where a: "setDepth fuel m child d = Some ma"
    and b: "setDepthEach fuel ma rest d = Some m'"
    by (auto split: option.splits)
  have "setDepth (Suc fuel) m child d = Some ma" using "4.IH"(1) [OF a] .
  moreover have "setDepthEach (Suc fuel) ma rest d = Some m'" using "4.IH"(2) [OF a b] .
  ultimately show ?case by simp
qed

lemma sortChildren_more_fuel:
  "sortChildren dateOf fuel m node = Some m' \<Longrightarrow> sortChildren dateOf (Suc fuel) m node = Some m'"
  "sortChildrenEach dateOf fuel m cs = Some m' \<Longrightarrow> sortChildrenEach dateOf (Suc fuel) m cs = Some m'"
proof (induction dateOf fuel m node and dateOf fuel m cs arbitrary: m' and m'
    rule: sortChildren_sortChildrenEach.induct)
  case (1 dateOf m node)
  then show ?case by simp
next
  case (2 dateOf fuel m node)
  then obtain n where n: "m node = Some n"
    and e: "sortChildrenEach dateOf fuel
              (m(node \<mapsto> n\<lparr>children := sortBy (byTimestamp dateOf m) (children n)\<rparr>))
              (sortBy (byTimestamp dateOf m) (children n)) = Some m'"
    by (auto simp: Let_def split: option.splits)
  have "sortChildrenEach dateOf (Suc fuel)
              (m(node \<mapsto> n\<lparr>children := sortBy (byTimestamp dateOf m) (children n)\<rparr>))
              (sortBy (byTimestamp dateOf m) (children n)) = Some m'"
    using "2.IH" [OF n refl e] .
  then show ?case using n by (simp add: Let_def)
next
  case (3 dateOf fuel m)
  then show ?case by simp
next
  case (4 dateOf fuel m child rest)
  then obtain ma where a: "sortChildren dateOf fuel m child = Some ma"
    and b: "sortChildrenEach dateOf fuel ma rest = Some m'"
    by (auto split: option.splits)
  have "sortChildren dateOf (Suc fuel) m child = Some ma" using "4.IH"(1) [OF a] .
  moreover have "sortChildrenEach dateOf (Suc fuel) ma rest = Some m'" using "4.IH"(2) [OF a b] .
  ultimately show ?case by simp
qed

lemma buildTraceTree_Suc_fuel:
  "buildTraceTree dateOf fuel spans = Some f \<Longrightarrow> buildTraceTree dateOf (Suc fuel) spans = Some f"
  unfolding buildTraceTree_def
  by (auto simp: Let_def setDepth_more_fuel(2) sortChildren_more_fuel(2) split: option.splits)

lemma buildTraceTree_more_fuel:
  "buildTraceTree dateOf fuel spans = Some f \<Longrightarrow>
   buildTraceTree dateOf (fuel + k) spans = Some f"
  by (induction k) (simp_all add: buildTraceTree_Suc_fuel)

text \<open>
  Claim C4, as the code has it. For a list of spans with pairwise distinct span ids,
  \<^verbatim>\<open>buildTraceTree\<close> returns (its two walks end, with fuel beyond the number of spans),
  and in the forest it returns: the roots are the spans whose \<^verbatim>\<open>parentId\<close> is absent,
  empty or not the id of a span of the list, in list order; the children of a node are
  the spans that name it as parent; the nodes reachable from a root are the spans
  whose chain of parents ends at a root; every root has depth 0 and every child of a
  node of the forest has the depth of its parent plus 1.
\<close>

theorem buildTraceTree_forest:
  assumes d: "distinct (map spanId spans)" and fu: "length spans < fuel"
  shows "\<exists>f. buildTraceTree dateOf fuel spans = Some f
      \<and> roots f = map spanId (filter (\<lambda>s. validParent spans s = None) spans)
      \<and> (\<forall>s\<in>set spans. \<exists>n. nodes f (spanId s) = Some n \<and> node_span n = s
             \<and> set (children n) = spanId ` {t \<in> set spans. validParent spans t = Some (spanId s)})
      \<and> (\<forall>x. inForest f x \<longleftrightarrow> (\<exists>k. chainEnds spans x k))
      \<and> (\<forall>r\<in>set (roots f). \<exists>n. nodes f r = Some n \<and> depth n = 0)
      \<and> (\<forall>p np c. inForest f p \<and> nodes f p = Some np \<and> c \<in> set (children np)
             \<longrightarrow> (\<exists>nc. nodes f c = Some nc \<and> depth nc = depth np + 1))"
proof -
  obtain f where f: "buildTraceTree dateOf fuel spans = Some f"
    "roots f = map spanId (filter (\<lambda>s. validParent spans s = None) spans)"
    "shape spans (nodes f)"
    "ranked spans (nodes f) (\<Union>r\<in>set (roots f). (childRel spans)\<^sup>* `` {r})"
    using buildTraceTree_shape [OF d fu] by blast
  have rt: "\<forall>r\<in>set (roots f). chainEnds spans r 0"
    unfolding f(2) by (auto intro: chainEnds.root)
  have rk: "\<exists>n. nodes f x = Some n \<and> chainEnds spans x (depth n)" if "inForest f x" for x
    using inForest_below [OF f(3) rt that] f(4) by (auto simp: ranked_def)
  have a: "\<forall>s\<in>set spans. \<exists>n. nodes f (spanId s) = Some n \<and> node_span n = s
             \<and> set (children n) = spanId ` {t \<in> set spans. validParent spans t = Some (spanId s)}"
    using f(3) unfolding shape_def childRel_image by blast
  have b: "\<forall>x. inForest f x \<longleftrightarrow> (\<exists>k. chainEnds spans x k)"
    using inForest_below [OF f(3) rt] chainEnds_inForest [OF f(3) f(2)] by blast
  have c: "\<forall>r\<in>set (roots f). \<exists>n. nodes f r = Some n \<and> depth n = 0"
  proof
    fix r assume r: "r \<in> set (roots f)"
    then obtain n where n: "nodes f r = Some n" "chainEnds spans r (depth n)"
      using rk [OF inForest.root] by blast
    have "depth n = 0" using chainEnds_unique [OF d n(2)] rt r by blast
    then show "\<exists>n. nodes f r = Some n \<and> depth n = 0" using n(1) by simp
  qed
  have e: "\<exists>nc. nodes f c = Some nc \<and> depth nc = depth np + 1"
    if h: "inForest f p \<and> nodes f p = Some np \<and> c \<in> set (children np)" for p np c
  proof -
    have p: "chainEnds spans p (depth np)" using rk [of p] h by auto
    obtain n' where "nodes f p = Some n'" "set (children n') = childRel spans `` {p}"
      using shape_node [OF f(3) p] by blast
    then have "(p, c) \<in> childRel spans" using h by auto
    then have cr: "chainEnds spans c (Suc (depth np))" using p by (rule child_rank [rotated])
    have "inForest f c" using h by (auto intro: inForest.child)
    then obtain nc where nc: "nodes f c = Some nc" "chainEnds spans c (depth nc)"
      using rk by blast
    have "depth nc = Suc (depth np)" using chainEnds_unique [OF d nc(2) cr] .
    then show ?thesis using nc(1) by simp
  qed
  show ?thesis using f(1,2) a b c e by blast
qed

theorem buildTraceTree_forest_witness:
  "distinct (map spanId [\<lparr>spanId = ''a'', parentId = None, timestamp = ''t1''\<rparr>,
                         \<lparr>spanId = ''b'', parentId = Some ''a'', timestamp = ''t2''\<rparr>])
   \<and> length [\<lparr>spanId = ''a'', parentId = None, timestamp = ''t1''\<rparr>,
              \<lparr>spanId = ''b'', parentId = Some ''a'', timestamp = ''t2''\<rparr>] < (3::nat)
   \<and> (\<exists>f. buildTraceTree (\<lambda>s. None) 3
              [\<lparr>spanId = ''a'', parentId = None, timestamp = ''t1''\<rparr>,
               \<lparr>spanId = ''b'', parentId = Some ''a'', timestamp = ''t2''\<rparr>] = Some f
          \<and> roots f = [''a''] \<and> inForest f ''b''
          \<and> (\<exists>n. nodes f ''a'' = Some n \<and> depth n = 0)
          \<and> (\<exists>n. nodes f ''b'' = Some n \<and> depth n = 1))"
proof -
  define A :: span where "A = \<lparr>spanId = ''a'', parentId = None, timestamp = ''t1''\<rparr>"
  define B :: span where "B = \<lparr>spanId = ''b'', parentId = Some ''a'', timestamp = ''t2''\<rparr>"
  have d: "distinct (map spanId [A, B])" by (simp add: A_def B_def)
  have l: "length [A, B] < (3::nat)" by simp
  have vA: "validParent [A, B] A = None" by (simp add: validParent_def truthy_def A_def)
  have vB: "validParent [A, B] B = Some ''a''" by (simp add: validParent_def truthy_def A_def B_def)
  have ia: "spanId A = ''a''" and ib: "spanId B = ''b''" by (simp_all add: A_def B_def)
  obtain f where f: "buildTraceTree (\<lambda>s. None) 3 [A, B] = Some f"
    "roots f = map spanId (filter (\<lambda>s. validParent [A, B] s = None) [A, B])"
    "\<forall>s\<in>set [A, B]. \<exists>n. nodes f (spanId s) = Some n \<and> node_span n = s
             \<and> set (children n) = spanId ` {t \<in> set [A, B]. validParent [A, B] t = Some (spanId s)}"
    "\<forall>r\<in>set (roots f). \<exists>n. nodes f r = Some n \<and> depth n = 0"
    "\<forall>p np c. inForest f p \<and> nodes f p = Some np \<and> c \<in> set (children np)
             \<longrightarrow> (\<exists>nc. nodes f c = Some nc \<and> depth nc = depth np + 1)"
    using buildTraceTree_forest [OF d l, of "\<lambda>s. None"] by blast
  have r: "roots f = [''a'']" using f(2) vA vB ia by simp
  obtain na where na: "nodes f ''a'' = Some na" "depth na = 0"
    using f(4) r by auto
  obtain na' where "nodes f (spanId A) = Some na'"
    "set (children na') = spanId ` {t \<in> set [A, B]. validParent [A, B] t = Some (spanId A)}"
    using f(3) by auto
  moreover have "''b'' \<in> spanId ` {t \<in> set [A, B]. validParent [A, B] t = Some (spanId A)}"
    using vB ia ib by (intro image_eqI [of _ _ B]) simp_all
  ultimately have cb: "''b'' \<in> set (children na)" using na(1) ia by simp
  have fa: "inForest f ''a''" using r by (auto intro: inForest.root)
  have fb: "inForest f ''b''" using fa na(1) cb by (rule inForest.child)
  obtain nb where nb: "nodes f ''b'' = Some nb" "depth nb = depth na + 1"
    using f(5) fa na(1) cb by blast
  have "\<exists>f. buildTraceTree (\<lambda>s. None) 3 [A, B] = Some f
          \<and> roots f = [''a''] \<and> inForest f ''b''
          \<and> (\<exists>n. nodes f ''a'' = Some n \<and> depth n = 0)
          \<and> (\<exists>n. nodes f ''b'' = Some n \<and> depth n = 1)"
    using f(1) r fb na nb by auto
  then show ?thesis using d l unfolding A_def B_def by blast
qed

text \<open>
  Without distinct ids the depths can be wrong: when two spans share the id \<^verbatim>\<open>c\<close>, one
  naming \<^verbatim>\<open>a\<close> and one naming \<^verbatim>\<open>b\<close> as parent, the one node \<^verbatim>\<open>c\<close> is a child of both,
  and its depth 1 is that of its parent \<^verbatim>\<open>b\<close>. Two spans that name each other as parent
  are nodes of \<^verbatim>\<open>spanMap\<close> that no root reaches: the forest is empty.
\<close>

theorem buildTraceTree_duplicate_counterexample:
  "(case buildTraceTree (\<lambda>s. None) 5
          [\<lparr>spanId = ''a'', parentId = None, timestamp = ''t1''\<rparr>,
           \<lparr>spanId = ''b'', parentId = Some ''a'', timestamp = ''t2''\<rparr>,
           \<lparr>spanId = ''c'', parentId = Some ''a'', timestamp = ''t3''\<rparr>,
           \<lparr>spanId = ''c'', parentId = Some ''b'', timestamp = ''t4''\<rparr>] of
      None \<Rightarrow> False
    | Some f \<Rightarrow> roots f = [''a'']
        \<and> map_option children (nodes f ''a'') = Some [''b'', ''c'']
        \<and> map_option children (nodes f ''b'') = Some [''c'']
        \<and> map_option depth (nodes f ''b'') = Some 1
        \<and> map_option depth (nodes f ''c'') = Some 1)
   \<and> (case buildTraceTree (\<lambda>s. None) 5
          [\<lparr>spanId = ''a'', parentId = Some ''b'', timestamp = ''t1''\<rparr>,
           \<lparr>spanId = ''b'', parentId = Some ''a'', timestamp = ''t2''\<rparr>] of
      None \<Rightarrow> False
    | Some f \<Rightarrow> roots f = []
        \<and> map_option children (nodes f ''a'') = Some [''b'']
        \<and> map_option depth (nodes f ''a'') = Some 0
        \<and> map_option depth (nodes f ''b'') = Some 0)"
  by code_simp


end
